theory Spec2Isabelle
  imports Main "HOL-Library.Multiset"
begin

section \<open>Python primitives used by BPlusTree.py\<close>

text \<open>
  Keys are values of a linear order. Objects live in a store: Python object references
  are addresses, and an object mutated through one reference is seen changed through
  every other one (the leaf chain \<open>_next\<close> and the parent's \<open>_pointers\<close> both
  refer to the same leaf).
\<close>

datatype error = IndexError | AttributeError | Dangling | OutOfFuel

type_synonym addr = nat

text \<open>\<open>list.insert(i, x)\<close> for a non-negative index: an index past the end appends.\<close>

definition list_insert :: "nat \<Rightarrow> 'a \<Rightarrow> 'a list \<Rightarrow> 'a list" where
  "list_insert i x xs = take i xs @ x # drop i xs"

text \<open>\<open>xs[i]\<close> for a non-negative index.\<close>

definition nth_opt :: "'a list \<Rightarrow> nat \<Rightarrow> 'a option" where
  "nth_opt xs i = (if i < length xs then Some (xs ! i) else None)"

text \<open>\<open>xs[i]\<close>, \<open>xs[i:]\<close> and \<open>xs[:i]\<close> for a Python integer: a negative index counts
  from the end; a slice clamps, an index raises.\<close>

definition py_get :: "'a list \<Rightarrow> int \<Rightarrow> 'a option" where
  "py_get xs i =
     (let n = int (length xs); j = (if i < 0 then n + i else i)
      in if 0 \<le> j \<and> j < n then Some (xs ! nat j) else None)"

definition py_slice_from :: "'a list \<Rightarrow> int \<Rightarrow> 'a list" where
  "py_slice_from xs i = drop (nat (if i < 0 then int (length xs) + i else i)) xs"

definition py_slice_to :: "'a list \<Rightarrow> int \<Rightarrow> 'a list" where
  "py_slice_to xs i = take (nat (if i < 0 then int (length xs) + i else i)) xs"

text \<open>\<open>bisect.bisect_left\<close> and \<open>bisect.bisect_right\<close>: the binary search of the
  standard library, on the whole list.\<close>

function bisect_left_loop :: "'k::linorder list \<Rightarrow> 'k \<Rightarrow> nat \<Rightarrow> nat \<Rightarrow> nat" where
  "bisect_left_loop a x lo hi =
     (if lo < hi then
        (let mid = (lo + hi) div 2
         in if a ! mid < x then bisect_left_loop a x (mid + 1) hi
            else bisect_left_loop a x lo mid)
      else lo)"
  by pat_completeness auto
termination
  by (relation "measure (\<lambda>(a, x, lo, hi). hi - lo)") auto

declare bisect_left_loop.simps [simp del]

definition bisect_left :: "'k::linorder list \<Rightarrow> 'k \<Rightarrow> nat" where
  "bisect_left a x = bisect_left_loop a x 0 (length a)"

function bisect_right_loop :: "'k::linorder list \<Rightarrow> 'k \<Rightarrow> nat \<Rightarrow> nat \<Rightarrow> nat" where
  "bisect_right_loop a x lo hi =
     (if lo < hi then
        (let mid = (lo + hi) div 2
         in if x < a ! mid then bisect_right_loop a x lo mid
            else bisect_right_loop a x (mid + 1) hi)
      else lo)"
  by pat_completeness auto
termination
  by (relation "measure (\<lambda>(a, x, lo, hi). hi - lo)") auto

declare bisect_right_loop.simps [simp del]

definition bisect_right :: "'k::linorder list \<Rightarrow> 'k \<Rightarrow> nat" where
  "bisect_right a x = bisect_right_loop a x 0 (length a)"

section \<open>The store and the three classes\<close>

text \<open>
  \<open>BPTreeLeaf(keys, next_leaf, capacity)\<close> and \<open>BPTreeNode(keys, pointers, capacity)\<close>.
  The store is the list of all objects created so far; a new object gets the next
  address. \<open>BPTree\<close> holds \<open>_tree\<close> (the root reference) and \<open>_capacity\<close>.
\<close>

datatype 'k obj =
    BPTreeLeaf "'k list" "addr option" int
  | BPTreeNode "'k list" "addr list" int

type_synonym 'k heap = "'k obj list"

record 'k BPTree =
  heap :: "'k heap"
  tree :: addr
  capacity :: int

definition lookup :: "'k heap \<Rightarrow> addr \<Rightarrow> 'k obj option" where
  "lookup h a = (if a < length h then Some (h ! a) else None)"

definition alloc :: "'k heap \<Rightarrow> 'k obj \<Rightarrow> addr \<times> 'k heap" where
  "alloc h ob = (length h, h @ [ob])"

fun obj_keys :: "'k obj \<Rightarrow> 'k list" where
  "obj_keys (BPTreeLeaf ks nx c) = ks"
| "obj_keys (BPTreeNode ks ps c) = ks"

subsection \<open>BPTreeLeaf\<close>

text \<open>The first two statements of \<open>BPTreeLeaf.insert\<close>: the key goes in at
  \<open>bisect_left\<close> unless it is already there.\<close>

definition leaf_put :: "'k::linorder list \<Rightarrow> 'k \<Rightarrow> 'k list" where
  "leaf_put ks key =
     (let index = bisect_left ks key
      in if index = length ks \<or> ks ! index \<noteq> key then list_insert index key ks else ks)"

definition BPTreeLeaf_insert ::
  "'k::linorder heap \<Rightarrow> addr \<Rightarrow> 'k list \<Rightarrow> addr option \<Rightarrow> int \<Rightarrow> 'k
    \<Rightarrow> error + (('k \<times> addr) option \<times> 'k heap)" where
  "BPTreeLeaf_insert h self ks nx cap key =
     (let ks1 = leaf_put ks key;
          split_index = (cap + 1) div 2
      in if int (length ks1) > cap then
           (let new_keys = py_slice_from ks1 split_index;
                (new_leaf, h1) = alloc h (BPTreeLeaf new_keys nx cap);
                h2 = h1[self := BPTreeLeaf (py_slice_to ks1 split_index) (Some new_leaf) cap]
            in case py_get new_keys 0 of
                 None \<Rightarrow> Inl IndexError
               | Some k0 \<Rightarrow> Inr (Some (k0, new_leaf), h2))
         else Inr (None, h[self := BPTreeLeaf ks1 nx cap]))"

text \<open>The \<open>while\<close> loop of \<open>BPTreeLeaf.keys\<close>.\<close>

fun keys_loop :: "nat \<Rightarrow> 'k heap \<Rightarrow> addr \<Rightarrow> 'k list \<Rightarrow> error + 'k list" where
  "keys_loop 0 h current all_keys = Inl OutOfFuel"
| "keys_loop (Suc n) h current all_keys =
     (case lookup h current of
        None \<Rightarrow> Inl Dangling
      | Some (BPTreeNode ks ps c) \<Rightarrow> Inl AttributeError
      | Some (BPTreeLeaf ks nx c) \<Rightarrow>
          (case nx of
             None \<Rightarrow> Inr all_keys
           | Some b \<Rightarrow>
               (case lookup h b of
                  None \<Rightarrow> Inl Dangling
                | Some ob \<Rightarrow> keys_loop n h b (all_keys @ obj_keys ob))))"

subsection \<open>BPTreeNode\<close>

definition BPTreeNode_insert_here ::
  "'k::linorder heap \<Rightarrow> addr \<Rightarrow> 'k list \<Rightarrow> addr list \<Rightarrow> int \<Rightarrow> nat \<Rightarrow> 'k \<Rightarrow> addr
    \<Rightarrow> error + (('k \<times> addr) option \<times> 'k heap)" where
  "BPTreeNode_insert_here h self ks ps cap position key pointer =
     (let ks1 = list_insert position key ks;
          ps1 = list_insert (position + 1) pointer ps;
          split_index = (cap + 1) div 2
      in if int (length ks1) > cap then
           (case py_get ks1 split_index of
              None \<Rightarrow> Inl IndexError
            | Some pkey \<Rightarrow>
                (let ks2 = remove1 pkey ks1;
                     (new_lateral_node, h1) =
                        alloc h (BPTreeNode (py_slice_from ks2 split_index)
                                            (py_slice_from ps1 (split_index + 1)) cap);
                     h2 = h1[self := BPTreeNode (py_slice_to ks2 split_index)
                                               (py_slice_to ps1 (split_index + 1)) cap]
                 in Inr (Some (pkey, new_lateral_node), h2)))
         else Inr (None, h[self := BPTreeNode ks1 ps1 cap]))"

subsection \<open>The methods, dispatched on the class of the object\<close>

fun insert_key :: "nat \<Rightarrow> 'k::linorder heap \<Rightarrow> addr \<Rightarrow> 'k
    \<Rightarrow> error + (('k \<times> addr) option \<times> 'k heap)" where
  "insert_key 0 h self key = Inl OutOfFuel"
| "insert_key (Suc n) h self key =
     (case lookup h self of
        None \<Rightarrow> Inl Dangling
      | Some (BPTreeLeaf ks nx cap) \<Rightarrow> BPTreeLeaf_insert h self ks nx cap key
      | Some (BPTreeNode ks ps cap) \<Rightarrow>
          (case nth_opt ps (bisect_right ks key) of
             None \<Rightarrow> Inl IndexError
           | Some child \<Rightarrow>
               (case insert_key n h child key of
                  Inl e \<Rightarrow> Inl e
                | Inr (None, h') \<Rightarrow> Inr (None, h')
                | Inr (Some (pkey, ppointer), h') \<Rightarrow>
                    (case lookup h' self of
                       Some (BPTreeNode ks' ps' cap') \<Rightarrow>
                         BPTreeNode_insert_here h' self ks' ps' cap'
                           (bisect_left ks' pkey) pkey ppointer
                     | _ \<Rightarrow> Inl AttributeError))))"

fun find_key :: "nat \<Rightarrow> 'k::linorder heap \<Rightarrow> addr \<Rightarrow> 'k \<Rightarrow> error + bool" where
  "find_key 0 h self key = Inl OutOfFuel"
| "find_key (Suc n) h self key =
     (case lookup h self of
        None \<Rightarrow> Inl Dangling
      | Some (BPTreeLeaf ks nx cap) \<Rightarrow> Inr (key \<in> set ks)
      | Some (BPTreeNode ks ps cap) \<Rightarrow>
          (case nth_opt ps (bisect_right ks key) of
             None \<Rightarrow> Inl IndexError
           | Some child \<Rightarrow> find_key n h child key))"

fun keys :: "nat \<Rightarrow> 'k heap \<Rightarrow> addr \<Rightarrow> error + 'k list" where
  "keys 0 h self = Inl OutOfFuel"
| "keys (Suc n) h self =
     (case lookup h self of
        None \<Rightarrow> Inl Dangling
      | Some (BPTreeLeaf ks nx cap) \<Rightarrow> keys_loop (Suc n) h self ks
      | Some (BPTreeNode ks ps cap) \<Rightarrow>
          (case nth_opt ps 0 of
             None \<Rightarrow> Inl IndexError
           | Some child \<Rightarrow> keys n h child))"

fun sum_results :: "(error + nat) list \<Rightarrow> error + nat" where
  "sum_results [] = Inr 0"
| "sum_results (r # rs) =
     (case r of
        Inl e \<Rightarrow> Inl e
      | Inr v \<Rightarrow> (case sum_results rs of Inl e \<Rightarrow> Inl e | Inr s \<Rightarrow> Inr (v + s)))"

fun num_nodes :: "nat \<Rightarrow> 'k heap \<Rightarrow> addr \<Rightarrow> error + nat" where
  "num_nodes 0 h self = Inl OutOfFuel"
| "num_nodes (Suc n) h self =
     (case lookup h self of
        None \<Rightarrow> Inl Dangling
      | Some (BPTreeLeaf ks nx cap) \<Rightarrow> Inr 0
      | Some (BPTreeNode ks ps cap) \<Rightarrow>
          (case sum_results (map (num_nodes n h) ps) of
             Inl e \<Rightarrow> Inl e
           | Inr s \<Rightarrow> Inr (1 + s)))"

fun num_leaves :: "nat \<Rightarrow> 'k heap \<Rightarrow> addr \<Rightarrow> error + nat" where
  "num_leaves 0 h self = Inl OutOfFuel"
| "num_leaves (Suc n) h self =
     (case lookup h self of
        None \<Rightarrow> Inl Dangling
      | Some (BPTreeLeaf ks nx cap) \<Rightarrow> Inr 1
      | Some (BPTreeNode ks ps cap) \<Rightarrow> sum_results (map (num_leaves n h) ps))"

fun num_keys :: "nat \<Rightarrow> 'k heap \<Rightarrow> addr \<Rightarrow> error + nat" where
  "num_keys 0 h self = Inl OutOfFuel"
| "num_keys (Suc n) h self =
     (case lookup h self of
        None \<Rightarrow> Inl Dangling
      | Some (BPTreeLeaf ks nx cap) \<Rightarrow> Inr (length ks)
      | Some (BPTreeNode ks ps cap) \<Rightarrow> sum_results (map (num_keys n h) ps))"

fun height :: "nat \<Rightarrow> 'k heap \<Rightarrow> addr \<Rightarrow> error + nat" where
  "height 0 h self = Inl OutOfFuel"
| "height (Suc n) h self =
     (case lookup h self of
        None \<Rightarrow> Inl Dangling
      | Some (BPTreeLeaf ks nx cap) \<Rightarrow> Inr 0
      | Some (BPTreeNode ks ps cap) \<Rightarrow>
          (case nth_opt ps 0 of
             None \<Rightarrow> Inl IndexError
           | Some child \<Rightarrow>
               (case height n h child of Inl e \<Rightarrow> Inl e | Inr v \<Rightarrow> Inr (1 + v))))"

subsection \<open>BPTree\<close>

definition BPTree_init :: "int \<Rightarrow> error + 'k BPTree" where
  "BPTree_init cap =
     (let (a, h) = alloc [] (BPTreeLeaf [] None cap)
      in Inr \<lparr>heap = h, tree = a, capacity = cap\<rparr>)"

definition BPTree_insert :: "nat \<Rightarrow> 'k::linorder BPTree \<Rightarrow> 'k \<Rightarrow> error + 'k BPTree" where
  "BPTree_insert n T key =
     (case insert_key n (heap T) (tree T) key of
        Inl e \<Rightarrow> Inl e
      | Inr (None, h') \<Rightarrow> Inr (T\<lparr>heap := h'\<rparr>)
      | Inr (Some (pkey, ppointer), h') \<Rightarrow>
          (let (new_master_node, h'') =
                 alloc h' (BPTreeNode [pkey] [tree T, ppointer] (capacity T))
           in Inr (T\<lparr>heap := h'', tree := new_master_node\<rparr>)))"

definition BPTree_keys :: "nat \<Rightarrow> 'k BPTree \<Rightarrow> error + 'k list" where
  "BPTree_keys n T = keys n (heap T) (tree T)"

definition BPTree_find :: "nat \<Rightarrow> 'k::linorder BPTree \<Rightarrow> 'k \<Rightarrow> error + bool" where
  "BPTree_find n T key = find_key n (heap T) (tree T) key"

definition BPTree_num_nodes :: "nat \<Rightarrow> 'k BPTree \<Rightarrow> error + nat" where
  "BPTree_num_nodes n T = num_nodes n (heap T) (tree T)"

definition BPTree_num_leaves :: "nat \<Rightarrow> 'k BPTree \<Rightarrow> error + nat" where
  "BPTree_num_leaves n T = num_leaves n (heap T) (tree T)"

definition BPTree_num_keys :: "nat \<Rightarrow> 'k BPTree \<Rightarrow> error + nat" where
  "BPTree_num_keys n T = num_keys n (heap T) (tree T)"

definition BPTree_height :: "nat \<Rightarrow> 'k BPTree \<Rightarrow> error + nat" where
  "BPTree_height n T =
     (case height n (heap T) (tree T) of Inl e \<Rightarrow> Inl e | Inr v \<Rightarrow> Inr (v + 1))"

definition BPTree_stats :: "nat \<Rightarrow> 'k BPTree \<Rightarrow> error + (nat \<times> nat \<times> nat \<times> nat)" where
  "BPTree_stats n T =
     (case BPTree_height n T of
        Inl e \<Rightarrow> Inl e
      | Inr hgt \<Rightarrow>
          (case BPTree_num_nodes n T of
             Inl e \<Rightarrow> Inl e
           | Inr nn \<Rightarrow>
               (case BPTree_num_leaves n T of
                  Inl e \<Rightarrow> Inl e
                | Inr nl \<Rightarrow>
                    (case BPTree_num_keys n T of
                       Inl e \<Rightarrow> Inl e
                     | Inr nk \<Rightarrow> Inr (hgt, nn, nl, nk)))))"

text \<open>A sequence of inserts, in order, on a tree.\<close>

fun insert_all :: "nat \<Rightarrow> 'k::linorder BPTree \<Rightarrow> 'k list \<Rightarrow> error + 'k BPTree" where
  "insert_all n T [] = Inr T"
| "insert_all n T (k # ks) =
     (case BPTree_insert n T k of Inl e \<Rightarrow> Inl e | Inr T' \<Rightarrow> insert_all n T' ks)"

text \<open>A new tree of the given capacity, then the inserts in order.\<close>

definition build :: "nat \<Rightarrow> int \<Rightarrow> 'k::linorder list \<Rightarrow> error + 'k BPTree" where
  "build n cap ks = (case BPTree_init cap of Inl e \<Rightarrow> Inl e | Inr T \<Rightarrow> insert_all n T ks)"






section \<open>The tree a store represents\<close>

text \<open>
  The shape reachable from a root reference, with the address of every object: a leaf
  with its keys, an internal node with its separators and its children. The functions
  below read such a shape; \<open>repr\<close> says that a store holds it.
\<close>

datatype 'k atree = ALeaf addr "'k list" | ANode addr "'k list" "'k atree list"

fun root :: "'k atree \<Rightarrow> addr" where
  "root (ALeaf a ks) = a"
| "root (ANode a ks ts) = a"

fun first_leaf :: "'k atree \<Rightarrow> addr" where
  "first_leaf (ALeaf a ks) = a"
| "first_leaf (ANode a ks []) = a"
| "first_leaf (ANode a ks (t # ts)) = first_leaf t"

fun addrs :: "'k atree \<Rightarrow> addr list" where
  "addrs (ALeaf a ks) = [a]"
| "addrs (ANode a ks ts) = a # concat (map addrs ts)"

text \<open>All keys of a subtree (separators and leaf keys), and the leaf keys from left to
  right.\<close>

fun akeys :: "'k atree \<Rightarrow> 'k set" where
  "akeys (ALeaf a ks) = set ks"
| "akeys (ANode a ks ts) = set ks \<union> (\<Union>t \<in> set ts. akeys t)"

fun lkeys :: "'k atree \<Rightarrow> 'k list" where
  "lkeys (ALeaf a ks) = ks"
| "lkeys (ANode a ks ts) = concat (map lkeys ts)"

fun anodes :: "'k atree \<Rightarrow> nat" where
  "anodes (ALeaf a ks) = 0"
| "anodes (ANode a ks ts) = 1 + sum_list (map anodes ts)"

fun aleaves :: "'k atree \<Rightarrow> nat" where
  "aleaves (ALeaf a ks) = 1"
| "aleaves (ANode a ks ts) = sum_list (map aleaves ts)"

text \<open>\<open>bal n t\<close>: every leaf of \<open>t\<close> is \<open>n\<close> levels below its root, and every internal
  node has a child.\<close>

fun bal :: "nat \<Rightarrow> 'k atree \<Rightarrow> bool" where
  "bal n (ALeaf a ks) = (n = 0)"
| "bal n (ANode a ks ts) =
     (case n of 0 \<Rightarrow> False | Suc m \<Rightarrow> ts \<noteq> [] \<and> (\<forall>t \<in> set ts. bal m t))"

fun aheight :: "'k atree \<Rightarrow> nat" where
  "aheight (ALeaf a ks) = 0"
| "aheight (ANode a ks []) = 1"
| "aheight (ANode a ks (t # ts)) = Suc (aheight t)"

fun capok :: "int \<Rightarrow> 'k atree \<Rightarrow> bool" where
  "capok cap (ALeaf a ks) = (int (length ks) \<le> cap)"
| "capok cap (ANode a ks ts) = (int (length ks) \<le> cap \<and> (\<forall>t \<in> set ts. capok cap t))"

text \<open>The order of a B+ tree: keys strictly increasing in every leaf and node, one more
  child than separators, and every key under child \<open>i\<close> below separator \<open>i\<close> (if
  there is one) and not below separator \<open>i - 1\<close> (if there is one).\<close>

fun ord :: "'k::linorder atree \<Rightarrow> bool" where
  "ord (ALeaf a ks) = sorted_wrt (<) ks"
| "ord (ANode a ks ts) =
     (sorted_wrt (<) ks \<and> length ts = Suc (length ks) \<and> (\<forall>t \<in> set ts. ord t) \<and>
      (\<forall>i < length ts. \<forall>x \<in> akeys (ts ! i).
          (i < length ks \<longrightarrow> x < ks ! i) \<and> (0 < i \<longrightarrow> ks ! (i - 1) \<le> x)))"

text \<open>\<open>repr cap h t nxt\<close>: the store \<open>h\<close> holds \<open>t\<close>, every object with capacity
  \<open>cap\<close>, the leaves of \<open>t\<close> chained from left to right and the last one pointing to
  \<open>nxt\<close>.\<close>

function repr :: "int \<Rightarrow> 'k heap \<Rightarrow> 'k atree \<Rightarrow> addr option \<Rightarrow> bool" where
  "repr cap h (ALeaf a ks) nxt = (lookup h a = Some (BPTreeLeaf ks nxt cap))"
| "repr cap h (ANode a ks ts) nxt =
     (lookup h a = Some (BPTreeNode ks (map root ts) cap) \<and>
      (\<forall>i < length ts. repr cap h (ts ! i)
          (if Suc i < length ts then Some (first_leaf (ts ! Suc i)) else nxt)))"
  by pat_completeness auto
termination
proof (relation "measure (\<lambda>(cap, h, t, nxt). size t)")
  fix cap :: int and h :: "'k heap" and a :: addr and ks :: "'k list"
    and ts :: "'k atree list" and nxt :: "addr option" and i :: nat
  assume "i < length ts"
  then have "size (ts ! i) \<le> size_list size ts"
    by (intro size_list_estimation'[of "ts ! i" ts]) simp_all
  then show "((cap, h, ts ! i,
      if Suc i < length ts then Some (first_leaf (ts ! Suc i)) else nxt),
      cap, h, ANode a ks ts, nxt) \<in> measure (\<lambda>(cap, h, t, nxt). size t)"
    by simp
qed simp

text \<open>The children of a node, chained: each child's last leaf points to the first leaf
  of the next child, the last child's to \<open>nxt\<close>.\<close>

definition children_ok :: "int \<Rightarrow> 'k heap \<Rightarrow> 'k atree list \<Rightarrow> addr option \<Rightarrow> bool" where
  "children_ok cap h ts nxt =
     (\<forall>i < length ts. repr cap h (ts ! i)
        (if Suc i < length ts then Some (first_leaf (ts ! Suc i)) else nxt))"

text \<open>The insertion on shapes, with the addresses the store hands out: \<open>m\<close> is the next
  free address, and the result carries the promoted key with the new sibling, if any,
  and the next free address afterwards.\<close>

definition anode_ins ::
  "int \<Rightarrow> nat \<Rightarrow> addr \<Rightarrow> 'k list \<Rightarrow> 'k atree list \<Rightarrow> nat \<Rightarrow> 'k \<Rightarrow> 'k atree
    \<Rightarrow> 'k atree \<times> ('k \<times> 'k atree) option \<times> nat" where
  "anode_ins cap m a ks ts pos pk s =
     (let ks1 = list_insert pos pk ks;
          ts1 = list_insert (Suc pos) s ts;
          si = nat ((cap + 1) div 2)
      in if int (length ks1) > cap then
           (ANode a (take si ks1) (take (Suc si) ts1),
            Some (ks1 ! si, ANode m (drop (Suc si) ks1) (drop (Suc si) ts1)), Suc m)
         else (ANode a ks1 ts1, None, m))"

function ains :: "int \<Rightarrow> nat \<Rightarrow> 'k::linorder atree \<Rightarrow> 'k
    \<Rightarrow> 'k atree \<times> ('k \<times> 'k atree) option \<times> nat" where
  "ains cap m (ALeaf a ks) k =
     (let ks1 = leaf_put ks k; si = nat ((cap + 1) div 2)
      in if int (length ks1) > cap then
           (ALeaf a (take si ks1), Some (ks1 ! si, ALeaf m (drop si ks1)), Suc m)
         else (ALeaf a ks1, None, m))"
| "ains cap m (ANode a ks ts) k =
     (let i = bisect_right ks k
      in if i < length ts then
           (case ains cap m (ts ! i) k of
              (t', None, m') \<Rightarrow> (ANode a ks (ts[i := t']), None, m')
            | (t', Some (pk, s), m') \<Rightarrow>
                anode_ins cap m' a ks (ts[i := t']) (bisect_left ks pk) pk s)
         else (ANode a ks ts, None, m))"
  by pat_completeness auto
termination
proof (relation "measure (\<lambda>(cap, m, t, k). size t)")
  fix cap :: int and m :: nat and a :: addr and ks :: "'k::linorder list"
    and ts :: "'k atree list" and k :: 'k and i :: nat
  assume "i = bisect_right ks k" and "i < length ts"
  then have "size (ts ! i) \<le> size_list size ts"
    by (intro size_list_estimation'[of "ts ! i" ts]) simp_all
  then show "((cap, m, ts ! i, k), cap, m, ANode a ks ts, k)
      \<in> measure (\<lambda>(cap, m, t, k). size t)"
    by simp
qed simp

text \<open>The invariant of a tree built by \<open>BPTree\<close>: the store holds exactly the
  objects of an ordered, balanced shape \<open>t\<close> within capacity, whose root is \<open>_tree\<close>,
  with the leaf chain ending in \<open>None\<close>.\<close>

definition tree_inv :: "'k::linorder BPTree \<Rightarrow> 'k atree \<Rightarrow> bool" where
  "tree_inv T t =
     (1 \<le> capacity T \<and> repr (capacity T) (heap T) t None \<and> root t = tree T \<and> ord t \<and>
      capok (capacity T) t \<and> bal (aheight t) t \<and> distinct (addrs t) \<and>
      set (addrs t) = {..<length (heap T)})"

text \<open>The leaves of a shape from left to right, and a chain of leaves in a store.\<close>

fun leaves :: "'k atree \<Rightarrow> (addr \<times> 'k list) list" where
  "leaves (ALeaf a ks) = [(a, ks)]"
| "leaves (ANode a ks ts) = concat (map leaves ts)"

fun chain :: "int \<Rightarrow> 'k heap \<Rightarrow> (addr \<times> 'k list) list \<Rightarrow> addr option \<Rightarrow> bool" where
  "chain cap h [] nxt = True"
| "chain cap h [(a, ks)] nxt = (lookup h a = Some (BPTreeLeaf ks nxt cap))"
| "chain cap h ((a, ks) # (b, kb) # r) nxt =
     (lookup h a = Some (BPTreeLeaf ks (Some b) cap) \<and> chain cap h ((b, kb) # r) nxt)"

text \<open>The depth below an object of every leaf under it, from left to right: what a
  walk from the object down to each leaf would count.\<close>

fun concat_results :: "(error + 'a list) list \<Rightarrow> error + 'a list" where
  "concat_results [] = Inr []"
| "concat_results (r # rs) =
     (case r of
        Inl e \<Rightarrow> Inl e
      | Inr v \<Rightarrow> (case concat_results rs of Inl e \<Rightarrow> Inl e | Inr s \<Rightarrow> Inr (v @ s)))"

fun leaf_depths :: "nat \<Rightarrow> 'k heap \<Rightarrow> addr \<Rightarrow> error + nat list" where
  "leaf_depths 0 h self = Inl OutOfFuel"
| "leaf_depths (Suc n) h self =
     (case lookup h self of
        None \<Rightarrow> Inl Dangling
      | Some (BPTreeLeaf ks nx cap) \<Rightarrow> Inr [0]
      | Some (BPTreeNode ks ps cap) \<Rightarrow>
          (case concat_results (map (leaf_depths n h) ps) of
             Inl e \<Rightarrow> Inl e
           | Inr ds \<Rightarrow> Inr (map Suc ds)))"

section \<open>Lists, slices and binary search\<close>

lemma bisect_left_Nil: "bisect_left [] x = 0"
  by (simp add: bisect_left_def bisect_left_loop.simps)

lemma leaf_put_nonempty: "leaf_put ks key \<noteq> []"
  by (cases ks) (auto simp: leaf_put_def Let_def list_insert_def bisect_left_Nil)

lemma py_slice_append: "py_slice_to xs i @ py_slice_from xs i = xs"
  by (simp add: py_slice_to_def py_slice_from_def)

lemma py_slice_from_nonempty:
  assumes "xs \<noteq> []" "i < int (length xs)"
  shows "py_slice_from xs i \<noteq> []"
proof -
  define n where "n = length xs"
  have "0 < n" using assms(1) by (simp add: n_def)
  then have "nat (if i < 0 then int n + i else i) < n"
    using assms(2) unfolding n_def[symmetric] by (cases "i < 0") auto
  then show ?thesis unfolding n_def py_slice_from_def by simp
qed

lemma py_get_nat: "i < length xs \<Longrightarrow> py_get xs (int i) = Some (xs ! i)"
  by (simp add: py_get_def)

lemma py_slice_from_nat: "py_slice_from xs (int i) = drop i xs"
  by (simp add: py_slice_from_def)

lemma py_slice_to_nat: "py_slice_to xs (int i) = take i xs"
  by (simp add: py_slice_to_def)

lemma remove1_nth_distinct:
  "distinct xs \<Longrightarrow> i < length xs \<Longrightarrow> remove1 (xs ! i) xs = take i xs @ drop (Suc i) xs"
proof (induction xs arbitrary: i)
  case Nil
  then show ?case by simp
next
  case (Cons x xs)
  then show ?case by (cases i) auto
qed

lemma nth_notin_take_drop:
  assumes "distinct xs" and "i < length xs"
  shows "xs ! i \<notin> set (take i xs) \<and> xs ! i \<notin> set (drop (Suc i) xs)"
proof -
  have "xs = take i xs @ xs ! i # drop (Suc i) xs" using assms(2) by (rule id_take_nth_drop)
  then have "distinct (take i xs @ xs ! i # drop (Suc i) xs)" using assms(1) by simp
  then show ?thesis by auto
qed

lemma bisect_left_loop_spec:
  assumes "sorted a" and "lo \<le> hi" and "hi \<le> length a"
      and "\<forall>i<lo. a ! i < x" and "\<forall>i. hi \<le> i \<and> i < length a \<longrightarrow> x \<le> a ! i"
  shows "lo \<le> bisect_left_loop a x lo hi \<and> bisect_left_loop a x lo hi \<le> hi
         \<and> (\<forall>i<bisect_left_loop a x lo hi. a ! i < x)
         \<and> (\<forall>i. bisect_left_loop a x lo hi \<le> i \<and> i < length a \<longrightarrow> x \<le> a ! i)"
  using assms
proof (induction a x lo hi rule: bisect_left_loop.induct)
  case (1 a x lo hi)
  show ?case
  proof (cases "lo < hi")
    case False
    then have eq: "bisect_left_loop a x lo hi = lo"
      by (subst bisect_left_loop.simps) simp
    show ?thesis unfolding eq using False "1.prems" by auto
  next
    case True
    define mid where "mid = (lo + hi) div 2"
    have mid: "lo \<le> mid" "mid < hi" using True by (auto simp: mid_def)
    show ?thesis
    proof (cases "a ! mid < x")
      case lt: True
      have pre: "\<forall>i<mid + 1. a ! i < x"
      proof (intro allI impI)
        fix i assume "i < mid + 1"
        then have "a ! i \<le> a ! mid"
          using "1.prems"(1,3) mid by (auto simp: sorted_iff_nth_mono)
        then show "a ! i < x" using lt by simp
      qed
      have ih: "mid + 1 \<le> bisect_left_loop a x (mid + 1) hi \<and>
            bisect_left_loop a x (mid + 1) hi \<le> hi \<and>
            (\<forall>i<bisect_left_loop a x (mid + 1) hi. a ! i < x) \<and>
            (\<forall>i. bisect_left_loop a x (mid + 1) hi \<le> i \<and> i < length a \<longrightarrow> x \<le> a ! i)"
        using "1.IH"(1)[OF True mid_def lt "1.prems"(1) _ "1.prems"(3) pre "1.prems"(5)] mid
        by simp
      have eq: "bisect_left_loop a x lo hi = bisect_left_loop a x (mid + 1) hi"
        using True lt by (subst bisect_left_loop.simps) (simp add: mid_def Let_def)
      show ?thesis unfolding eq using ih mid by auto
    next
      case ge: False
      have post: "\<forall>i. mid \<le> i \<and> i < length a \<longrightarrow> x \<le> a ! i"
      proof (intro allI impI)
        fix i assume "mid \<le> i \<and> i < length a"
        then have "a ! mid \<le> a ! i"
          using "1.prems"(1) by (auto simp: sorted_iff_nth_mono)
        then show "x \<le> a ! i" using ge by simp
      qed
      have ih: "lo \<le> bisect_left_loop a x lo mid \<and>
            bisect_left_loop a x lo mid \<le> mid \<and>
            (\<forall>i<bisect_left_loop a x lo mid. a ! i < x) \<and>
            (\<forall>i. bisect_left_loop a x lo mid \<le> i \<and> i < length a \<longrightarrow> x \<le> a ! i)"
        using "1.IH"(2)[OF True mid_def ge "1.prems"(1) _ _ "1.prems"(4) post] mid "1.prems"(3)
        by simp
      have eq: "bisect_left_loop a x lo hi = bisect_left_loop a x lo mid"
        using True ge by (subst bisect_left_loop.simps) (simp add: mid_def Let_def)
      show ?thesis unfolding eq using ih mid by auto
    qed
  qed
qed

lemma bisect_left_spec:
  assumes "sorted a"
  shows "bisect_left a x \<le> length a \<and> (\<forall>i<bisect_left a x. a ! i < x)
         \<and> (\<forall>i. bisect_left a x \<le> i \<and> i < length a \<longrightarrow> x \<le> a ! i)"
proof -
  have "\<forall>i<0. a ! i < x" by simp
  moreover have "\<forall>i. length a \<le> i \<and> i < length a \<longrightarrow> x \<le> a ! i" by auto
  ultimately show ?thesis
    using bisect_left_loop_spec[OF assms, of 0 "length a" x] unfolding bisect_left_def
    by blast
qed

lemma bisect_left_eqI:
  assumes "sorted a" and "r \<le> length a" and "\<forall>i<r. a ! i < x"
      and "\<forall>i. r \<le> i \<and> i < length a \<longrightarrow> x \<le> a ! i"
  shows "bisect_left a x = r"
proof -
  let ?b = "bisect_left a x"
  note s = bisect_left_spec[OF assms(1), of x]
  have "\<not> ?b < r"
  proof
    assume "?b < r"
    then have "a ! ?b < x" "x \<le> a ! ?b" using assms(2,3) s by auto
    then show False by simp
  qed
  moreover have "\<not> r < ?b"
  proof
    assume "r < ?b"
    then have "a ! r < x" "x \<le> a ! r" using assms(4) s by auto
    then show False by simp
  qed
  ultimately show ?thesis by simp
qed

lemma bisect_right_loop_spec:
  assumes "sorted a" and "lo \<le> hi" and "hi \<le> length a"
      and "\<forall>i<lo. a ! i \<le> x" and "\<forall>i. hi \<le> i \<and> i < length a \<longrightarrow> x < a ! i"
  shows "lo \<le> bisect_right_loop a x lo hi \<and> bisect_right_loop a x lo hi \<le> hi
         \<and> (\<forall>i<bisect_right_loop a x lo hi. a ! i \<le> x)
         \<and> (\<forall>i. bisect_right_loop a x lo hi \<le> i \<and> i < length a \<longrightarrow> x < a ! i)"
  using assms
proof (induction a x lo hi rule: bisect_right_loop.induct)
  case (1 a x lo hi)
  show ?case
  proof (cases "lo < hi")
    case False
    then have eq: "bisect_right_loop a x lo hi = lo"
      by (subst bisect_right_loop.simps) simp
    show ?thesis unfolding eq using False "1.prems" by auto
  next
    case True
    define mid where "mid = (lo + hi) div 2"
    have mid: "lo \<le> mid" "mid < hi" using True by (auto simp: mid_def)
    show ?thesis
    proof (cases "x < a ! mid")
      case lt: True
      have post: "\<forall>i. mid \<le> i \<and> i < length a \<longrightarrow> x < a ! i"
      proof (intro allI impI)
        fix i assume "mid \<le> i \<and> i < length a"
        then have "a ! mid \<le> a ! i"
          using "1.prems"(1) by (auto simp: sorted_iff_nth_mono)
        then show "x < a ! i" using lt by simp
      qed
      have ih: "lo \<le> bisect_right_loop a x lo mid \<and>
            bisect_right_loop a x lo mid \<le> mid \<and>
            (\<forall>i<bisect_right_loop a x lo mid. a ! i \<le> x) \<and>
            (\<forall>i. bisect_right_loop a x lo mid \<le> i \<and> i < length a \<longrightarrow> x < a ! i)"
        using "1.IH"(1)[OF True mid_def lt "1.prems"(1) _ _ "1.prems"(4) post] mid "1.prems"(3)
        by simp
      have eq: "bisect_right_loop a x lo hi = bisect_right_loop a x lo mid"
        using True lt by (subst bisect_right_loop.simps) (simp add: mid_def Let_def)
      show ?thesis unfolding eq using ih mid by auto
    next
      case ge: False
      have pre: "\<forall>i<mid + 1. a ! i \<le> x"
      proof (intro allI impI)
        fix i assume "i < mid + 1"
        then have "a ! i \<le> a ! mid"
          using "1.prems"(1,3) mid by (auto simp: sorted_iff_nth_mono)
        then show "a ! i \<le> x" using ge by simp
      qed
      have ih: "mid + 1 \<le> bisect_right_loop a x (mid + 1) hi \<and>
            bisect_right_loop a x (mid + 1) hi \<le> hi \<and>
            (\<forall>i<bisect_right_loop a x (mid + 1) hi. a ! i \<le> x) \<and>
            (\<forall>i. bisect_right_loop a x (mid + 1) hi \<le> i \<and> i < length a \<longrightarrow> x < a ! i)"
        using "1.IH"(2)[OF True mid_def ge "1.prems"(1) _ "1.prems"(3) pre "1.prems"(5)] mid
        by simp
      have eq: "bisect_right_loop a x lo hi = bisect_right_loop a x (mid + 1) hi"
        using True ge by (subst bisect_right_loop.simps) (simp add: mid_def Let_def)
      show ?thesis unfolding eq using ih mid by auto
    qed
  qed
qed

lemma bisect_right_spec:
  assumes "sorted a"
  shows "bisect_right a x \<le> length a \<and> (\<forall>i<bisect_right a x. a ! i \<le> x)
         \<and> (\<forall>i. bisect_right a x \<le> i \<and> i < length a \<longrightarrow> x < a ! i)"
proof -
  have "\<forall>i<0. a ! i \<le> x" by simp
  moreover have "\<forall>i. length a \<le> i \<and> i < length a \<longrightarrow> x < a ! i" by auto
  ultimately show ?thesis
    using bisect_right_loop_spec[OF assms, of 0 "length a" x] unfolding bisect_right_def
    by blast
qed

lemma bisect_right_eqI:
  assumes "sorted a" and "r \<le> length a" and "\<forall>i<r. a ! i \<le> x"
      and "\<forall>i. r \<le> i \<and> i < length a \<longrightarrow> x < a ! i"
  shows "bisect_right a x = r"
proof -
  let ?b = "bisect_right a x"
  note s = bisect_right_spec[OF assms(1), of x]
  have "\<not> ?b < r"
  proof
    assume "?b < r"
    then have "a ! ?b \<le> x" "x < a ! ?b" using assms(2,3) s by auto
    then show False by simp
  qed
  moreover have "\<not> r < ?b"
  proof
    assume "r < ?b"
    then have "a ! r \<le> x" "x < a ! r" using assms(4) s by auto
    then show False by simp
  qed
  ultimately show ?thesis by simp
qed

lemma strict_sorted_imp_sorted: "sorted_wrt (<) (xs :: 'a::linorder list) \<Longrightarrow> sorted xs"
  by (simp add: strict_sorted_iff)

lemma list_insert_length [simp]: "length (list_insert i x xs) = Suc (length xs)"
  by (simp add: list_insert_def)

lemma list_insert_set [simp]: "set (list_insert i x xs) = insert x (set xs)"
proof -
  have "set (take i xs) \<union> set (drop i xs) = set xs"
    by (metis append_take_drop_id set_append)
  then show ?thesis by (auto simp: list_insert_def)
qed

lemma list_insert_nth:
  assumes "i \<le> length xs" and "j \<le> length xs"
  shows "list_insert i x xs ! j = (if j < i then xs ! j else if j = i then x else xs ! (j - 1))"
  using assms by (auto simp: list_insert_def nth_append min_def nth_Cons')

lemma sorted_wrt_list_insert:
  assumes "sorted_wrt (<) (xs :: 'a::linorder list)" and "i \<le> length xs"
      and "\<forall>j<i. xs ! j < x" and "\<forall>j. i \<le> j \<and> j < length xs \<longrightarrow> x < xs ! j"
  shows "sorted_wrt (<) (list_insert i x xs)"
proof -
  have 1: "sorted_wrt (<) (take i xs)" "sorted_wrt (<) (drop i xs)"
    using assms(1) by (simp_all add: sorted_wrt_take sorted_wrt_drop)
  have 2: "\<forall>y\<in>set (take i xs). y < x"
    using assms(2,3) by (auto simp: in_set_conv_nth)
  have 3: "\<forall>y\<in>set (drop i xs). x < y"
    using assms(2,4) by (auto simp: in_set_conv_nth)
  have 4: "\<forall>y\<in>set (take i xs). \<forall>z\<in>set (drop i xs). y < z"
    using 2 3 by fastforce
  show ?thesis unfolding list_insert_def using 1 2 3 4 by (simp add: sorted_wrt_append)
qed

lemma leaf_put_present:
  assumes "sorted_wrt (<) (ks :: 'k::linorder list)" and "key \<in> set ks"
  shows "leaf_put ks key = ks"
proof -
  let ?b = "bisect_left ks key"
  note s = bisect_left_spec[OF strict_sorted_imp_sorted[OF assms(1)], of key]
  obtain j where j: "j < length ks" "ks ! j = key" using assms(2) by (auto simp: in_set_conv_nth)
  have "\<not> j < ?b" using s j by auto
  then have bj: "?b \<le> j" by simp
  then have lt: "?b < length ks" using j by simp
  have "key \<le> ks ! ?b" using s lt by auto
  moreover have "ks ! ?b \<le> ks ! j"
    using bj j strict_sorted_imp_sorted[OF assms(1)] by (auto simp: sorted_iff_nth_mono)
  ultimately have "ks ! ?b = key" using j by simp
  then show ?thesis using lt by (simp add: leaf_put_def Let_def)
qed

lemma leaf_put_absent:
  assumes "sorted_wrt (<) (ks :: 'k::linorder list)" and "key \<notin> set ks"
  shows "leaf_put ks key = list_insert (bisect_left ks key) key ks
         \<and> sorted_wrt (<) (leaf_put ks key)"
proof -
  let ?b = "bisect_left ks key"
  note s = bisect_left_spec[OF strict_sorted_imp_sorted[OF assms(1)], of key]
  have "?b < length ks \<Longrightarrow> ks ! ?b \<noteq> key"
    using assms(2) nth_mem by metis
  then have eq: "leaf_put ks key = list_insert ?b key ks"
    using s by (auto simp: leaf_put_def Let_def)
  have "\<forall>j. ?b \<le> j \<and> j < length ks \<longrightarrow> key < ks ! j"
  proof (intro allI impI)
    fix j assume j: "?b \<le> j \<and> j < length ks"
    then have "key \<le> ks ! j" using s by simp
    moreover have "ks ! j \<noteq> key" using j assms(2) by auto
    ultimately show "key < ks ! j" by simp
  qed
  then have "sorted_wrt (<) (list_insert ?b key ks)"
    using sorted_wrt_list_insert[OF assms(1), of ?b key] s by blast
  then show ?thesis using eq by simp
qed

lemma leaf_put_sorted:
  assumes "sorted_wrt (<) (ks :: 'k::linorder list)"
  shows "sorted_wrt (<) (leaf_put ks key) \<and> set (leaf_put ks key) = insert key (set ks)"
proof (cases "key \<in> set ks")
  case True
  then show ?thesis using leaf_put_present[OF assms True] assms by auto
next
  case False
  then show ?thesis using leaf_put_absent[OF assms False] by auto
qed

lemma leaf_put_length:
  assumes "sorted_wrt (<) (ks :: 'k::linorder list)"
  shows "length (leaf_put ks key) \<le> Suc (length ks)"
  by (simp add: leaf_put_def Let_def)

lemma split_index_bounds:
  assumes "1 \<le> cap"
  shows "1 \<le> nat ((cap + 1) div 2)" and "int (nat ((cap + 1) div 2)) \<le> cap"
  using assms by auto

lemma first_leaf_hd: "ts \<noteq> [] \<Longrightarrow> first_leaf (ANode a ks ts) = first_leaf (hd ts)"
  by (cases ts) auto

lemma hd_list_insert_Suc: "xs \<noteq> [] \<Longrightarrow> hd (list_insert (Suc p) y xs) = hd xs"
  by (cases xs) (auto simp: list_insert_def)

lemma list_insert_nonempty [simp]: "list_insert p y xs \<noteq> []"
  by (simp add: list_insert_def)

lemma hd_update: "hd (xs[i := y]) = (if i = 0 \<and> xs \<noteq> [] then y else hd xs)"
  by (cases xs; cases i) auto

lemma ains_root: "ains cap m t k = (t', sib, m') \<Longrightarrow> root t' = root t"
  by (cases t) (auto simp: anode_ins_def Let_def split: if_splits prod.splits option.splits)

lemma anode_ins_first_leaf:
  assumes "anode_ins cap m a ks ts pos pk s = (t', sib, m')" and "ts \<noteq> []"
  shows "first_leaf t' = first_leaf (hd ts)"
  using assms
  by (auto simp: anode_ins_def Let_def first_leaf_hd hd_list_insert_Suc split: if_splits)

lemma ains_first_leaf: "ains cap m t k = (t', sib, m') \<Longrightarrow> first_leaf t' = first_leaf t"
proof (induction cap m t k arbitrary: t' sib m' rule: ains.induct)
  case (1 cap m a ks k)
  then show ?case by (auto simp: Let_def split: if_splits)
next
  case (2 cap m a ks ts k)
  define i where "i = bisect_right ks k"
  show ?case
  proof (cases "i < length ts")
    case False
    then show ?thesis using "2.prems" by (simp add: i_def)
  next
    case True
    then have ne: "ts \<noteq> []" by auto
    obtain tc sc mc where c: "ains cap m (ts ! i) k = (tc, sc, mc)" by (cases "ains cap m (ts ! i) k")
    have ih: "first_leaf tc = first_leaf (ts ! i)" using "2.IH"[OF i_def True c] .
    have hd: "first_leaf (hd (ts[i := tc])) = first_leaf (hd ts)"
      using ih True by (cases i) (auto simp: hd_update hd_conv_nth)
    show ?thesis
    proof (cases sc)
      case None
      then show ?thesis using "2.prems" True c hd ne
        by (auto simp: i_def[symmetric] first_leaf_hd)
    next
      case (Some p)
      obtain pk s where p: "p = (pk, s)" by (cases p)
      have "anode_ins cap mc a ks (ts[i := tc]) (bisect_left ks pk) pk s = (t', sib, m')"
        using "2.prems" True c Some p by (simp add: i_def[symmetric])
      from anode_ins_first_leaf[OF this] ne hd show ?thesis by (simp add: first_leaf_hd)
    qed
  qed
qed

lemma sorted_split:
  assumes "sorted_wrt (<) (xs :: 'a::linorder list)" and "n < length xs"
  shows "\<forall>x\<in>set (take n xs). x < xs ! n" and "\<forall>x\<in>set (drop n xs). xs ! n \<le> x"
    and "\<forall>x\<in>set (drop (Suc n) xs). xs ! n < x"
proof -
  have "xs = take n xs @ xs ! n # drop (Suc n) xs" using assms(2) by (rule id_take_nth_drop)
  then have s: "sorted_wrt (<) (take n xs @ xs ! n # drop (Suc n) xs)" using assms(1) by simp
  show "\<forall>x\<in>set (take n xs). x < xs ! n" using s by (auto simp: sorted_wrt_append)
  show 3: "\<forall>x\<in>set (drop (Suc n) xs). xs ! n < x" using s by (auto simp: sorted_wrt_append)
  have "drop n xs = xs ! n # drop (Suc n) xs" using assms(2) by (simp add: Cons_nth_drop_Suc)
  then show "\<forall>x\<in>set (drop n xs). xs ! n \<le> x" using 3 by auto
qed

lemma ains_node_cases:
  assumes "ains cap m (ANode a ks ts) k = (t', sib, m')" and "i = bisect_right ks k"
      and "i < length ts"
  obtains (same) tc where "ains cap m (ts ! i) k = (tc, None, m')"
      and "t' = ANode a ks (ts[i := tc])" and "sib = None"
  | (promoted) tc pk s mc where "ains cap m (ts ! i) k = (tc, Some (pk, s), mc)"
      and "anode_ins cap mc a ks (ts[i := tc]) (bisect_left ks pk) pk s = (t', sib, m')"
proof -
  obtain tc sc mc where c: "ains cap m (ts ! i) k = (tc, sc, mc)" by (cases "ains cap m (ts ! i) k")
  show thesis
  proof (cases sc)
    case None
    then show ?thesis using assms c same by (auto simp: Let_def)
  next
    case (Some p)
    obtain pk s where p: "p = (pk, s)" by (cases p)
    show ?thesis using assms c Some p promoted[of tc pk s mc] by (auto simp: Let_def)
  qed
qed

lemma anode_ins_cases:
  assumes "anode_ins cap m a ks ts pos pk s = (t', sib, m')" and "1 \<le> cap"
  obtains (absorb) "int (length ks) < cap" and "t' = ANode a (list_insert pos pk ks) (list_insert (Suc pos) s ts)"
      and "sib = None" and "m' = m"
  | (split) si where "si = nat ((cap + 1) div 2)" and "1 \<le> si" and "si \<le> length ks"
      and "cap \<le> int (length ks)"
      and "t' = ANode a (take si (list_insert pos pk ks)) (take (Suc si) (list_insert (Suc pos) s ts))"
      and "sib = Some (list_insert pos pk ks ! si,
             ANode m (drop (Suc si) (list_insert pos pk ks)) (drop (Suc si) (list_insert (Suc pos) s ts)))"
      and "m' = Suc m"
proof (cases "int (length (list_insert pos pk ks)) > cap")
  case False
  then show ?thesis using assms absorb by (auto simp: anode_ins_def Let_def)
next
  case True
  have "nat ((cap + 1) div 2) \<le> length ks" using True assms(2) by auto
  then show ?thesis
    using True assms split[of "nat ((cap + 1) div 2)"]
    by (auto simp: anode_ins_def Let_def)
qed

lemma node_children_nth:
  assumes "i < length ts" and "j \<le> length ts"
  shows "list_insert (Suc i) s (ts[i := tc]) ! j =
           (if j < i then ts ! j else if j = i then tc else if j = Suc i then s else ts ! (j - 1))"
  using assms list_insert_nth[of "Suc i" "ts[i := tc]" j s] by auto

lemma sorted_nth_le:
  assumes "sorted_wrt (<) (xs :: 'a::linorder list)" and "i \<le> j" and "j < length xs"
  shows "xs ! i \<le> xs ! j"
  using assms strict_sorted_imp_sorted sorted_iff_nth_mono by blast

lemma ord_node_update:
  assumes "ord (ANode a ks ts)" and "i < length ts" and "ord tc"
      and "\<forall>x\<in>akeys tc. (i < length ks \<longrightarrow> x < ks ! i) \<and> (0 < i \<longrightarrow> ks ! (i - 1) \<le> x)"
  shows "ord (ANode a ks (ts[i := tc]))"
proof -
  have "\<forall>t\<in>set (ts[i := tc]). ord t"
    using assms(1,3) set_update_subset_insert[of ts i tc] by auto
  moreover have "\<forall>j<length ts. \<forall>x\<in>akeys (ts[i := tc] ! j).
      (j < length ks \<longrightarrow> x < ks ! j) \<and> (0 < j \<longrightarrow> ks ! (j - 1) \<le> x)"
    using assms(1,2,4) by (auto simp: nth_list_update)
  ultimately show ?thesis using assms(1) by simp
qed

lemma ord_node_insert:
  assumes o: "ord (ANode a ks ts)" and i: "i < length ts" and otc: "ord tc" and os: "ord s"
      and tcb: "\<forall>x\<in>akeys tc. (i < length ks \<longrightarrow> x < ks ! i) \<and> (0 < i \<longrightarrow> ks ! (i - 1) \<le> x)"
      and sb: "\<forall>x\<in>akeys s. (i < length ks \<longrightarrow> x < ks ! i) \<and> (0 < i \<longrightarrow> ks ! (i - 1) \<le> x)"
      and lt: "\<forall>x\<in>akeys tc. x < pk" and ge: "\<forall>x\<in>akeys s. pk \<le> x"
      and up: "i < length ks \<longrightarrow> pk < ks ! i" and lo: "0 < i \<longrightarrow> ks ! (i - 1) < pk"
  shows "ord (ANode a (list_insert i pk ks) (list_insert (Suc i) s (ts[i := tc])))"
proof -
  let ?ks1 = "list_insert i pk ks" and ?ts1 = "list_insert (Suc i) s (ts[i := tc])"
  have srt: "sorted_wrt (<) ks" and len: "length ts = Suc (length ks)"
    and B: "\<forall>j<length ts. \<forall>x\<in>akeys (ts ! j).
        (j < length ks \<longrightarrow> x < ks ! j) \<and> (0 < j \<longrightarrow> ks ! (j - 1) \<le> x)"
    using o by auto
  have ik: "i \<le> length ks" using i len by simp
  have below: "\<forall>j<i. ks ! j < pk"
  proof (intro allI impI)
    fix j assume j: "j < i"
    then have "ks ! j \<le> ks ! (i - 1)" using sorted_nth_le[OF srt, of j "i - 1"] ik by simp
    then show "ks ! j < pk" using lo j by auto
  qed
  have above: "\<forall>j. i \<le> j \<and> j < length ks \<longrightarrow> pk < ks ! j"
  proof (intro allI impI)
    fix j assume j: "i \<le> j \<and> j < length ks"
    then have "ks ! i \<le> ks ! j" using sorted_nth_le[OF srt, of i j] by simp
    then show "pk < ks ! j" using up j by auto
  qed
  have s1: "sorted_wrt (<) ?ks1" using sorted_wrt_list_insert[OF srt ik below above] .
  have kn: "\<And>j. j \<le> length ks \<Longrightarrow>
      ?ks1 ! j = (if j < i then ks ! j else if j = i then pk else ks ! (j - 1))"
    using list_insert_nth[OF ik] by blast
  have tn: "\<And>j. j \<le> length ts \<Longrightarrow>
      ?ts1 ! j = (if j < i then ts ! j else if j = i then tc else if j = Suc i then s else ts ! (j - 1))"
    using node_children_nth[OF i] by blast
  have c1: "\<forall>t\<in>set ?ts1. ord t"
    using o otc os set_update_subset_insert[of ts i tc] by auto
  have c2: "\<forall>j<length ?ts1. \<forall>x\<in>akeys (?ts1 ! j).
      (j < length ?ks1 \<longrightarrow> x < ?ks1 ! j) \<and> (0 < j \<longrightarrow> ?ks1 ! (j - 1) \<le> x)"
  proof (intro allI impI ballI)
    fix j x assume j: "j < length ?ts1" and x: "x \<in> akeys (?ts1 ! j)"
    have jl: "j \<le> length ts" using j by simp
    consider (a) "j < i" | (b) "j = i" | (c) "j = Suc i" | (d) "Suc i < j" by linarith
    then show "(j < length ?ks1 \<longrightarrow> x < ?ks1 ! j) \<and> (0 < j \<longrightarrow> ?ks1 ! (j - 1) \<le> x)"
    proof cases
      case a
      then have "x \<in> akeys (ts ! j)" using x tn[OF jl] by simp
      then have "(j < length ks \<longrightarrow> x < ks ! j) \<and> (0 < j \<longrightarrow> ks ! (j - 1) \<le> x)"
        using B a i by auto
      then show ?thesis using a ik kn[of j] kn[of "j - 1"] by auto
    next
      case b
      then have xt: "x \<in> akeys tc" using x tn[OF jl] by simp
      then have "x < pk" "0 < i \<longrightarrow> ks ! (i - 1) \<le> x" using lt tcb by auto
      then show ?thesis using b ik kn[of i] kn[of "i - 1"] by auto
    next
      case c
      then have xs: "x \<in> akeys s" using x tn[OF jl] by simp
      then have "pk \<le> x" "i < length ks \<longrightarrow> x < ks ! i" using ge sb by auto
      then show ?thesis using c ik j len kn[of i] kn[of "Suc i"] by auto
    next
      case d
      then have "x \<in> akeys (ts ! (j - 1))" using x tn[OF jl] by simp
      moreover have "j - 1 < length ts" using j d by simp
      ultimately have "(j - 1 < length ks \<longrightarrow> x < ks ! (j - 1)) \<and> ks ! (j - 1 - 1) \<le> x"
        using B d by auto
      then show ?thesis using d ik j len kn[of j] kn[of "j - 1"] by auto
    qed
  qed
  show ?thesis using s1 len c1 c2 by simp
qed

lemma in_set_takeD: "t \<in> set (take n xs) \<Longrightarrow> \<exists>j<n. j < length xs \<and> t = xs ! j"
  by (auto simp: in_set_conv_nth)

lemma in_set_dropD: "t \<in> set (drop n xs) \<Longrightarrow> \<exists>j. n \<le> j \<and> j < length xs \<and> t = xs ! j"
proof -
  assume "t \<in> set (drop n xs)"
  then obtain k where "k < length xs - n" "t = drop n xs ! k" by (auto simp: in_set_conv_nth)
  then have "n \<le> n + k \<and> n + k < length xs \<and> t = xs ! (n + k)" by auto
  then show ?thesis by blast
qed

lemma ord_node_split:
  assumes o: "ord (ANode a ks ts)" and n: "n < length ks"
  shows "ord (ANode a (take n ks) (take (Suc n) ts))"
    and "ord (ANode b (drop (Suc n) ks) (drop (Suc n) ts))"
    and "\<forall>x\<in>akeys (ANode a (take n ks) (take (Suc n) ts)). x < ks ! n"
    and "\<forall>x\<in>akeys (ANode b (drop (Suc n) ks) (drop (Suc n) ts)). ks ! n \<le> x"
proof -
  have srt: "sorted_wrt (<) ks" and len: "length ts = Suc (length ks)"
    and oc: "\<forall>t\<in>set ts. ord t"
    and B: "\<forall>j<length ts. \<forall>x\<in>akeys (ts ! j).
        (j < length ks \<longrightarrow> x < ks ! j) \<and> (0 < j \<longrightarrow> ks ! (j - 1) \<le> x)"
    using o by auto
  show "ord (ANode a (take n ks) (take (Suc n) ts))"
  proof -
    have "sorted_wrt (<) (take n ks)" using srt by (simp add: sorted_wrt_take)
    moreover have "length (take (Suc n) ts) = Suc (length (take n ks))" using n len by simp
    moreover have "\<forall>t\<in>set (take (Suc n) ts). ord t" using oc by (auto dest: in_set_takeD)
    moreover have "\<forall>j<length (take (Suc n) ts). \<forall>x\<in>akeys (take (Suc n) ts ! j).
        (j < length (take n ks) \<longrightarrow> x < take n ks ! j) \<and> (0 < j \<longrightarrow> take n ks ! (j - 1) \<le> x)"
      using B n len by auto
    ultimately show ?thesis by simp
  qed
  show "ord (ANode b (drop (Suc n) ks) (drop (Suc n) ts))"
  proof -
    have "sorted_wrt (<) (drop (Suc n) ks)" using srt by (simp add: sorted_wrt_drop)
    moreover have "length (drop (Suc n) ts) = Suc (length (drop (Suc n) ks))" using n len by simp
    moreover have "\<forall>t\<in>set (drop (Suc n) ts). ord t" using oc by (auto dest: in_set_dropD)
    moreover have "\<forall>j<length (drop (Suc n) ts). \<forall>x\<in>akeys (drop (Suc n) ts ! j).
        (j < length (drop (Suc n) ks) \<longrightarrow> x < drop (Suc n) ks ! j)
        \<and> (0 < j \<longrightarrow> drop (Suc n) ks ! (j - 1) \<le> x)"
    proof (intro allI impI ballI)
      fix j x assume j: "j < length (drop (Suc n) ts)" and x: "x \<in> akeys (drop (Suc n) ts ! j)"
      have j': "Suc n + j < length ts" using j by simp
      have "x \<in> akeys (ts ! (Suc n + j))" using x j' by simp
      then have "(Suc n + j < length ks \<longrightarrow> x < ks ! (Suc n + j)) \<and> ks ! (Suc n + j - 1) \<le> x"
        using B j' by auto
      moreover have "0 < j \<Longrightarrow> drop (Suc n) ks ! (j - 1) = ks ! (Suc n + j - 1)"
        using j' len by simp
      ultimately show "(j < length (drop (Suc n) ks) \<longrightarrow> x < drop (Suc n) ks ! j)
        \<and> (0 < j \<longrightarrow> drop (Suc n) ks ! (j - 1) \<le> x)"
        using j' len by auto
    qed
    ultimately show ?thesis by simp
  qed
  show "\<forall>x\<in>akeys (ANode a (take n ks) (take (Suc n) ts)). x < ks ! n"
  proof
    fix x assume "x \<in> akeys (ANode a (take n ks) (take (Suc n) ts))"
    then consider (k) "x \<in> set (take n ks)" | (c) t where "t \<in> set (take (Suc n) ts)" "x \<in> akeys t"
      by auto
    then show "x < ks ! n"
    proof cases
      case k
      then show ?thesis using sorted_split(1)[OF srt n] by simp
    next
      case c
      then obtain j where j: "j < Suc n" "j < length ts" "t = ts ! j" using in_set_takeD by metis
      then have "x < ks ! j" using B c n by auto
      moreover have "ks ! j \<le> ks ! n" using sorted_nth_le[OF srt, of j n] j n by simp
      ultimately show ?thesis by simp
    qed
  qed
  show "\<forall>x\<in>akeys (ANode b (drop (Suc n) ks) (drop (Suc n) ts)). ks ! n \<le> x"
  proof
    fix x assume "x \<in> akeys (ANode b (drop (Suc n) ks) (drop (Suc n) ts))"
    then consider (k) "x \<in> set (drop (Suc n) ks)"
      | (c) t where "t \<in> set (drop (Suc n) ts)" "x \<in> akeys t"
      by auto
    then show "ks ! n \<le> x"
    proof cases
      case k
      then show ?thesis using sorted_split(3)[OF srt n] by auto
    next
      case c
      then obtain j where j: "Suc n \<le> j" "j < length ts" "t = ts ! j" using in_set_dropD by metis
      then have "ks ! (j - 1) \<le> x" using B c by auto
      moreover have "ks ! n \<le> ks ! (j - 1)" using sorted_nth_le[OF srt, of n "j - 1"] j len by simp
      ultimately show ?thesis by simp
    qed
  qed
qed

lemma akeys_node_split_subset:
  "akeys (ANode a (take n ks) (take m ts)) \<union> akeys (ANode b (drop n' ks) (drop m' ts))
     \<subseteq> akeys (ANode c ks ts)"
  by (auto dest: in_set_takeD in_set_dropD)

lemma akeys_node_insert_subset:
  "akeys (ANode a (list_insert i pk ks) (list_insert j s (ts[l := tc])))
     \<subseteq> insert pk (akeys s \<union> akeys tc \<union> akeys (ANode a ks ts))"
  using set_update_subset_insert[of ts l tc] by auto

lemma sep_position:
  assumes srt: "sorted_wrt (<) (ks :: 'k::linorder list)" and ik: "i \<le> length ks"
      and up: "i < length ks \<longrightarrow> pk < ks ! i" and lo: "0 < i \<longrightarrow> ks ! (i - 1) < pk"
  shows "bisect_left ks pk = i"
proof -
  have below: "\<forall>j<i. ks ! j < pk"
  proof (intro allI impI)
    fix j assume j: "j < i"
    then have "ks ! j \<le> ks ! (i - 1)" using sorted_nth_le[OF srt, of j "i - 1"] ik by simp
    then show "ks ! j < pk" using lo j by auto
  qed
  have above: "\<forall>j. i \<le> j \<and> j < length ks \<longrightarrow> pk \<le> ks ! j"
  proof (intro allI impI)
    fix j assume j: "i \<le> j \<and> j < length ks"
    then have "ks ! i \<le> ks ! j" using sorted_nth_le[OF srt, of i j] by simp
    then show "pk \<le> ks ! j" using up j by auto
  qed
  show ?thesis using bisect_left_eqI[OF strict_sorted_imp_sorted[OF srt] ik below above] .
qed

lemma route_bounds:
  assumes "ord (ANode a ks ts)" and "i = bisect_right ks k"
  shows "i < length ts" and "i < length ks \<longrightarrow> k < ks ! i" and "0 < i \<longrightarrow> ks ! (i - 1) \<le> k"
proof -
  have srt: "sorted ks" and len: "length ts = Suc (length ks)"
    using assms(1) strict_sorted_imp_sorted by auto
  note s = bisect_right_spec[OF srt, of k]
  show "i < length ts" using s len assms(2) by simp
  show "i < length ks \<longrightarrow> k < ks ! i" using s assms(2) by simp
  show "0 < i \<longrightarrow> ks ! (i - 1) \<le> k" using s assms(2) by simp
qed

lemma ains_ord:
  assumes "ord t" and "1 \<le> cap" and "ains cap m t k = (t', sib, m')"
  shows "ord t' \<and> akeys t' \<subseteq> insert k (akeys t) \<and>
         (\<forall>pk s. sib = Some (pk, s) \<longrightarrow>
            ord s \<and> akeys s \<subseteq> insert k (akeys t) \<and> pk \<in> insert k (akeys t) \<and>
            (\<forall>x\<in>akeys t'. x < pk) \<and> (\<forall>x\<in>akeys s. pk \<le> x) \<and> akeys t' \<noteq> {})"
  using assms
proof (induction cap m t k arbitrary: t' sib m' rule: ains.induct)
  case (1 cap m a ks k)
  define ks1 where "ks1 = leaf_put ks k"
  define si where "si = nat ((cap + 1) div 2)"
  have s1: "sorted_wrt (<) ks1" and set1: "set ks1 = insert k (set ks)"
    using leaf_put_sorted[of ks k] "1.prems"(1) by (auto simp: ks1_def)
  show ?case
  proof (cases "int (length ks1) > cap")
    case False
    then have "t' = ALeaf a ks1" "sib = None"
      using "1.prems"(3) by (auto simp: ks1_def Let_def)
    then show ?thesis using s1 set1 by simp
  next
    case True
    have si: "1 \<le> si" "si < length ks1" using True "1.prems"(2) by (auto simp: si_def)
    have t': "t' = ALeaf a (take si ks1)" and sib: "sib = Some (ks1 ! si, ALeaf m (drop si ks1))"
      using True "1.prems"(3) by (auto simp: ks1_def si_def Let_def)
    have "take si ks1 \<noteq> []" using si by auto
    moreover have "set (take si ks1) \<subseteq> set ks1" "set (drop si ks1) \<subseteq> set ks1"
      by (simp_all add: set_take_subset set_drop_subset)
    moreover have "ks1 ! si \<in> set ks1" using si by simp
    moreover have "sorted_wrt (<) (take si ks1)" "sorted_wrt (<) (drop si ks1)"
      using s1 by (simp_all add: sorted_wrt_take sorted_wrt_drop)
    ultimately show ?thesis
      using t' sib set1 sorted_split(1,2)[OF s1 si(2)] by auto
  qed
next
  case (2 cap m a ks ts k)
  define i where "i = bisect_right ks k"
  note o = "2.prems"(1)
  note rb = route_bounds[OF o i_def]
  have srt: "sorted_wrt (<) ks" and len: "length ts = Suc (length ks)"
    and B: "\<forall>x\<in>akeys (ts ! i). (i < length ks \<longrightarrow> x < ks ! i) \<and> (0 < i \<longrightarrow> ks ! (i - 1) \<le> x)"
    and oc: "ord (ts ! i)"
    using o rb(1) by auto
  have sub: "akeys (ts ! i) \<subseteq> akeys (ANode a ks ts)" using rb(1) by auto
  have K: "\<forall>x\<in>insert k (akeys (ts ! i)).
      (i < length ks \<longrightarrow> x < ks ! i) \<and> (0 < i \<longrightarrow> ks ! (i - 1) \<le> x)"
    using B rb by auto
  from "2.prems"(3) i_def rb(1) show ?case
  proof (cases rule: ains_node_cases)
    case (same tc)
    have ih: "ord tc" "akeys tc \<subseteq> insert k (akeys (ts ! i))"
      using "2.IH"[OF i_def rb(1) oc "2.prems"(2) same(1)] by auto
    have "ord (ANode a ks (ts[i := tc]))"
      using ord_node_update[OF o rb(1) ih(1)] K ih(2) by blast
    moreover have "akeys (ANode a ks (ts[i := tc])) \<subseteq> insert k (akeys (ANode a ks ts))"
      using ih(2) sub set_update_subset_insert[of ts i tc] by auto
    ultimately show ?thesis using same by simp
  next
    case (promoted tc pk s mc)
    have ih: "ord tc" "akeys tc \<subseteq> insert k (akeys (ts ! i))" "ord s"
      "akeys s \<subseteq> insert k (akeys (ts ! i))" "pk \<in> insert k (akeys (ts ! i))"
      "\<forall>x\<in>akeys tc. x < pk" "\<forall>x\<in>akeys s. pk \<le> x" "akeys tc \<noteq> {}"
      using "2.IH"[OF i_def rb(1) oc "2.prems"(2) promoted(1)] by auto
    have tcb: "\<forall>x\<in>akeys tc. (i < length ks \<longrightarrow> x < ks ! i) \<and> (0 < i \<longrightarrow> ks ! (i - 1) \<le> x)"
      using K ih(2) by blast
    have sb: "\<forall>x\<in>akeys s. (i < length ks \<longrightarrow> x < ks ! i) \<and> (0 < i \<longrightarrow> ks ! (i - 1) \<le> x)"
      using K ih(4) by blast
    have up: "i < length ks \<longrightarrow> pk < ks ! i" using K ih(5) by blast
    obtain x0 where x0: "x0 \<in> akeys tc" using ih(8) by auto
    have lo: "0 < i \<longrightarrow> ks ! (i - 1) < pk"
      using tcb ih(6) x0 by (meson le_less_trans)
    have ik: "i \<le> length ks" using rb(1) len by simp
    have pos: "bisect_left ks pk = i" using sep_position[OF srt ik up lo] .
    let ?ks1 = "list_insert i pk ks" and ?ts1 = "list_insert (Suc i) s (ts[i := tc])"
    have oN: "ord (ANode a ?ks1 ?ts1)"
      using ord_node_insert[OF o rb(1) ih(1) ih(3) tcb sb ih(6) ih(7) up lo] .
    have kN: "akeys (ANode a ?ks1 ?ts1) \<subseteq> insert k (akeys (ANode a ks ts))"
      using akeys_node_insert_subset[of a i pk ks "Suc i" s ts i tc] ih(2,4,5) sub by blast
    from promoted(2)[unfolded pos] "2.prems"(2) show ?thesis
    proof (cases rule: anode_ins_cases)
      case absorb
      then show ?thesis using oN kN by simp
    next
      case (split si)
      define L where "L = ANode a (take si ?ks1) (take (Suc si) ?ts1)"
      define R where "R = ANode mc (drop (Suc si) ?ks1) (drop (Suc si) ?ts1)"
      have res: "t' = L" "sib = Some (?ks1 ! si, R)"
        using split(5,6) by (simp_all add: L_def R_def)
      have sl: "si < length ?ks1" using split(3) by simp
      note sp = ord_node_split[OF oN sl]
      have f1: "ord L" unfolding L_def by (rule sp(1))
      have f2: "ord R" unfolding R_def by (rule sp(2))
      have f3: "\<forall>x\<in>akeys L. x < ?ks1 ! si" unfolding L_def by (rule sp(3))
      have f4: "\<forall>x\<in>akeys R. ?ks1 ! si \<le> x" unfolding R_def by (rule sp(4))
      have "akeys L \<union> akeys R \<subseteq> akeys (ANode a ?ks1 ?ts1)"
        unfolding L_def R_def by (rule akeys_node_split_subset)
      then have a1: "akeys L \<subseteq> insert k (akeys (ANode a ks ts))"
        and a2: "akeys R \<subseteq> insert k (akeys (ANode a ks ts))"
        using kN by blast+
      have "?ks1 ! si \<in> set ?ks1" using sl by (rule nth_mem)
      then have "?ks1 ! si \<in> akeys (ANode a ?ks1 ?ts1)" by auto
      then have a3: "?ks1 ! si \<in> insert k (akeys (ANode a ks ts))" using kN by blast
      have "take si ?ks1 \<noteq> []" using split(2) by auto
      then have a4: "akeys L \<noteq> {}" unfolding L_def by simp
      show ?thesis unfolding res using f1 f2 f3 f4 a1 a2 a3 a4 by simp
    qed
  qed
qed

lemma node_children_set:
  "set (list_insert j s (ts[i := tc])) \<subseteq> insert s (insert tc (set ts))"
  using set_update_subset_insert[of ts i tc] by auto

lemma ains_capok:
  assumes "capok cap t" and "1 \<le> cap" and "ains cap m t k = (t', sib, m')"
  shows "capok cap t' \<and> (\<forall>pk s. sib = Some (pk, s) \<longrightarrow> capok cap s)"
  using assms
proof (induction cap m t k arbitrary: t' sib m' rule: ains.induct)
  case (1 cap m a ks k)
  define ks1 where "ks1 = leaf_put ks k"
  define si where "si = nat ((cap + 1) div 2)"
  have l1: "length ks1 \<le> Suc (length ks)" by (simp add: ks1_def leaf_put_def Let_def)
  show ?case
  proof (cases "int (length ks1) > cap")
    case False
    then show ?thesis using "1.prems"(3) by (auto simp: ks1_def Let_def)
  next
    case True
    have si: "1 \<le> si" "int si \<le> cap" using "1.prems"(2) by (auto simp: si_def)
    have t': "t' = ALeaf a (take si ks1)" and sib: "sib = Some (ks1 ! si, ALeaf m (drop si ks1))"
      using True "1.prems"(3) by (auto simp: ks1_def si_def Let_def)
    have "int (length (take si ks1)) \<le> cap" using si by simp
    moreover have "int (length (drop si ks1)) \<le> cap" using si l1 "1.prems"(1) by simp
    ultimately show ?thesis using t' sib by simp
  qed
next
  case (2 cap m a ks ts k)
  define i where "i = bisect_right ks k"
  show ?case
  proof (cases "i < length ts")
    case False
    then show ?thesis using "2.prems" by (auto simp: i_def)
  next
    case True
    have ck: "int (length ks) \<le> cap" and cc: "\<forall>t\<in>set ts. capok cap t" and ci: "capok cap (ts ! i)"
      using "2.prems"(1) True by auto
    from "2.prems"(3) i_def True show ?thesis
    proof (cases rule: ains_node_cases)
      case (same tc)
      have "capok cap tc" using "2.IH"[OF i_def True ci "2.prems"(2) same(1)] by simp
      then have "\<forall>t\<in>set (ts[i := tc]). capok cap t"
        using cc set_update_subset_insert[of ts i tc] by auto
      then show ?thesis using same ck by simp
    next
      case (promoted tc pk s mc)
      have ih: "capok cap tc" "capok cap s"
        using "2.IH"[OF i_def True ci "2.prems"(2) promoted(1)] by auto
      let ?p = "bisect_left ks pk"
      let ?ks1 = "list_insert ?p pk ks" and ?ts1 = "list_insert (Suc ?p) s (ts[i := tc])"
      have c1: "\<forall>t\<in>set ?ts1. capok cap t"
        using cc ih node_children_set[of "Suc ?p" s ts i tc] by auto
      from promoted(2) "2.prems"(2) show ?thesis
      proof (cases rule: anode_ins_cases)
        case absorb
        then show ?thesis using c1 by simp
      next
        case (split si)
        have "\<forall>t\<in>set (take (Suc si) ?ts1). capok cap t"
          using c1 set_take_subset[of "Suc si" ?ts1] by blast
        moreover have "\<forall>t\<in>set (drop (Suc si) ?ts1). capok cap t"
          using c1 set_drop_subset[of "Suc si" ?ts1] by blast
        moreover have "int (length (take si ?ks1)) \<le> cap" using split(1,3) "2.prems"(2) by simp
        moreover have "int (length (drop (Suc si) ?ks1)) \<le> cap" using ck by simp
        ultimately show ?thesis using split(5,6) by simp
      qed
    qed
  qed
qed

lemma ains_bal:
  assumes "bal n t" and "ord t" and "1 \<le> cap" and "ains cap m t k = (t', sib, m')"
  shows "bal n t' \<and> (\<forall>pk s. sib = Some (pk, s) \<longrightarrow> bal n s)"
  using assms
proof (induction cap m t k arbitrary: t' sib m' n rule: ains.induct)
  case (1 cap m a ks k)
  then show ?case by (auto simp: Let_def split: if_splits)
next
  case (2 cap m a ks ts k)
  define i where "i = bisect_right ks k"
  note rb = route_bounds[OF "2.prems"(2) i_def]
  obtain n' where n: "n = Suc n'" and bc: "\<forall>t\<in>set ts. bal n' t"
    using "2.prems"(1) by (cases n) auto
  have len: "length ts = Suc (length ks)" and oi: "ord (ts ! i)" and bi: "bal n' (ts ! i)"
    using "2.prems"(2) rb(1) bc by auto
  from "2.prems"(4) i_def rb(1) show ?case
  proof (cases rule: ains_node_cases)
    case (same tc)
    have "bal n' tc" using "2.IH"[OF i_def rb(1) bi oi "2.prems"(3) same(1)] by simp
    then have "\<forall>t\<in>set (ts[i := tc]). bal n' t"
      using bc set_update_subset_insert[of ts i tc] by auto
    moreover have "ts[i := tc] \<noteq> []" using rb(1) by auto
    ultimately show ?thesis using same n by simp
  next
    case (promoted tc pk s mc)
    have ih: "bal n' tc" "bal n' s"
      using "2.IH"[OF i_def rb(1) bi oi "2.prems"(3) promoted(1)] by auto
    let ?p = "bisect_left ks pk"
    let ?ks1 = "list_insert ?p pk ks" and ?ts1 = "list_insert (Suc ?p) s (ts[i := tc])"
    have c1: "\<forall>t\<in>set ?ts1. bal n' t"
      using bc ih node_children_set[of "Suc ?p" s ts i tc] by auto
    from promoted(2) "2.prems"(3) show ?thesis
    proof (cases rule: anode_ins_cases)
      case absorb
      then show ?thesis using c1 n by simp
    next
      case (split si)
      have "\<forall>t\<in>set (take (Suc si) ?ts1). bal n' t"
        using c1 set_take_subset[of "Suc si" ?ts1] by blast
      moreover have "\<forall>t\<in>set (drop (Suc si) ?ts1). bal n' t"
        using c1 set_drop_subset[of "Suc si" ?ts1] by blast
      moreover have "take (Suc si) ?ts1 \<noteq> []" by simp
      moreover have "drop (Suc si) ?ts1 \<noteq> []" using split(3) len by simp
      ultimately show ?thesis using split(5,6) n by simp
    qed
  qed
qed

lemma sorted_wrt_concat_nth:
  assumes "\<forall>xs\<in>set xss. sorted_wrt P xs"
      and "\<forall>i j. i < j \<and> j < length xss \<longrightarrow> (\<forall>x\<in>set (xss ! i). \<forall>y\<in>set (xss ! j). P x y)"
  shows "sorted_wrt P (concat xss)"
  using assms
proof (induction xss)
  case Nil
  then show ?case by simp
next
  case (Cons xs xss)
  have 1: "sorted_wrt P xs" using Cons.prems(1) by simp
  have 2: "sorted_wrt P (concat xss)"
  proof (rule Cons.IH)
    show "\<forall>xs\<in>set xss. sorted_wrt P xs" using Cons.prems(1) by simp
    show "\<forall>i j. i < j \<and> j < length xss \<longrightarrow> (\<forall>x\<in>set (xss ! i). \<forall>y\<in>set (xss ! j). P x y)"
    proof (intro allI impI)
      fix i j assume "i < j \<and> j < length xss"
      then have "Suc i < Suc j \<and> Suc j < length (xs # xss)" by simp
      then have "\<forall>x\<in>set ((xs # xss) ! Suc i). \<forall>y\<in>set ((xs # xss) ! Suc j). P x y"
        using Cons.prems(2) by blast
      then show "\<forall>x\<in>set (xss ! i). \<forall>y\<in>set (xss ! j). P x y" by simp
    qed
  qed
  have 3: "\<forall>x\<in>set xs. \<forall>y\<in>set (concat xss). P x y"
  proof (intro ballI)
    fix x y assume x: "x \<in> set xs" and "y \<in> set (concat xss)"
    then obtain ys where "ys \<in> set xss" "y \<in> set ys" by auto
    then obtain j where j: "j < length xss" "y \<in> set (xss ! j)"
      by (metis in_set_conv_nth)
    then have "0 < Suc j \<and> Suc j < length (xs # xss)" by simp
    then have "\<forall>x\<in>set ((xs # xss) ! 0). \<forall>y\<in>set ((xs # xss) ! Suc j). P x y"
      using Cons.prems(2) by blast
    then show "P x y" using x j by simp
  qed
  show ?case using 1 2 3 by (simp add: sorted_wrt_append)
qed

lemma lkeys_subset_akeys: "set (lkeys t) \<subseteq> akeys t"
  by (induction t) auto

lemma lkeys_in_akeys: "x \<in> set (lkeys t) \<Longrightarrow> x \<in> akeys t"
  by (induction t) auto

lemma ord_lkeys_sorted: "ord t \<Longrightarrow> sorted_wrt (<) (lkeys t)"
proof (induction t)
  case (ALeaf a ks)
  then show ?case by simp
next
  case (ANode a ks ts)
  have srt: "sorted_wrt (<) ks" and len: "length ts = Suc (length ks)"
    and B: "\<forall>j<length ts. \<forall>x\<in>akeys (ts ! j).
        (j < length ks \<longrightarrow> x < ks ! j) \<and> (0 < j \<longrightarrow> ks ! (j - 1) \<le> x)"
    using ANode.prems by auto
  have 1: "\<forall>xs\<in>set (map lkeys ts). sorted_wrt (<) xs" using ANode by auto
  have 2: "\<forall>i j. i < j \<and> j < length (map lkeys ts) \<longrightarrow>
      (\<forall>x\<in>set (map lkeys ts ! i). \<forall>y\<in>set (map lkeys ts ! j). x < y)"
  proof (intro allI impI ballI)
    fix i j x y
    assume ij: "i < j \<and> j < length (map lkeys ts)"
      and x: "x \<in> set (map lkeys ts ! i)" and y: "y \<in> set (map lkeys ts ! j)"
    have "x \<in> set (lkeys (ts ! i))" "y \<in> set (lkeys (ts ! j))"
      using x y ij by simp_all
    then have "x \<in> akeys (ts ! i)" "y \<in> akeys (ts ! j)"
      by (simp_all add: lkeys_in_akeys)
    then have "x < ks ! i" "ks ! (j - 1) \<le> y" using B ij len by auto
    moreover have "i \<le> j - 1" "j - 1 < length ks" using ij len by auto
    then have "ks ! i \<le> ks ! (j - 1)" by (rule sorted_nth_le[OF srt])
    ultimately show "x < y" by simp
  qed
  show ?case using sorted_wrt_concat_nth[OF 1 2] by simp
qed

lemma Union_update:
  assumes "i < length ts"
  shows "(\<Union>t\<in>set (ts[i := tc]). f t) \<union> f (ts ! i) = (\<Union>t\<in>set ts. f t) \<union> f tc"
proof -
  have 1: "ts = take i ts @ ts ! i # drop (Suc i) ts" using assms by (rule id_take_nth_drop)
  have 2: "ts[i := tc] = take i ts @ tc # drop (Suc i) ts" using assms by (rule upd_conv_take_nth_drop)
  have "(\<Union>t\<in>set ts. f t) = (\<Union>t\<in>set (take i ts @ ts ! i # drop (Suc i) ts). f t)"
    using 1 by simp
  then show ?thesis unfolding 2 by auto
qed

lemma Union_take_drop:
  "(\<Union>t\<in>set (take n ts). f t) \<union> (\<Union>t\<in>set (drop n ts). f t) = (\<Union>t\<in>set ts. f t)"
proof -
  have "set (take n ts) \<union> set (drop n ts) = set ts"
    by (metis append_take_drop_id set_append)
  then show ?thesis by blast
qed

lemma ains_lkeys:
  assumes "ord t" and "1 \<le> cap" and "ains cap m t k = (t', sib, m')"
  shows "set (lkeys t') \<union> (case sib of None \<Rightarrow> {} | Some (pk, s) \<Rightarrow> set (lkeys s))
           = insert k (set (lkeys t))"
  using assms
proof (induction cap m t k arbitrary: t' sib m' rule: ains.induct)
  case (1 cap m a ks k)
  define ks1 where "ks1 = leaf_put ks k"
  have set1: "set ks1 = insert k (set ks)"
    using leaf_put_sorted[of ks k] "1.prems"(1) by (auto simp: ks1_def)
  have td: "set (take n ks1) \<union> set (drop n ks1) = set ks1" for n
    by (metis append_take_drop_id set_append)
  show ?case
  proof (cases "int (length ks1) > cap")
    case False
    then have "t' = ALeaf a ks1" "sib = None"
      using "1.prems"(3) by (auto simp: ks1_def Let_def)
    then show ?thesis using set1 by simp
  next
    case True
    define si where "si = nat ((cap + 1) div 2)"
    have "t' = ALeaf a (take si ks1)" "sib = Some (ks1 ! si, ALeaf m (drop si ks1))"
      using True "1.prems"(3) by (auto simp: ks1_def si_def Let_def)
    then show ?thesis using set1 td[of si] by simp
  qed
next
  case (2 cap m a ks ts k)
  define i where "i = bisect_right ks k"
  define f where "f = (\<lambda>t :: 'a atree. set (lkeys t))"
  have lk: "set (lkeys (ANode b ks' ts')) = (\<Union>t\<in>set ts'. f t)" for b ks' ts'
    by (simp add: f_def)
  note rb = route_bounds[OF "2.prems"(1) i_def]
  have oi: "ord (ts ! i)" using "2.prems"(1) rb(1) by auto
  have fi: "f (ts ! i) \<subseteq> (\<Union>t\<in>set ts. f t)" using nth_mem[OF rb(1)] by blast
  from "2.prems"(3) i_def rb(1) show ?case
  proof (cases rule: ains_node_cases)
    case (same tc)
    have ih: "f tc = insert k (f (ts ! i))"
      using "2.IH"[OF i_def rb(1) oi "2.prems"(2) same(1)] by (simp add: f_def)
    define U where "U = (\<Union>t\<in>set ts. f t)"
    define U' where "U' = (\<Union>t\<in>set (ts[i := tc]). f t)"
    have "tc \<in> set (ts[i := tc])" using rb(1) by (simp add: set_update_memI)
    then have 1: "f tc \<subseteq> U'" unfolding U'_def by blast
    have 2: "U' \<union> f (ts ! i) = U \<union> f tc"
      unfolding U_def U'_def by (rule Union_update[OF rb(1)])
    have 3: "f (ts ! i) \<subseteq> U" using fi by (simp add: U_def)
    have "U' = insert k U" using 1 2 3 ih by blast
    then show ?thesis unfolding same(2,3) lk U_def U'_def by simp
  next
    case (promoted tc pk s mc)
    have ih: "f tc \<union> f s = insert k (f (ts ! i))"
      using "2.IH"[OF i_def rb(1) oi "2.prems"(2) promoted(1)] by (simp add: f_def)
    let ?p = "bisect_left ks pk"
    let ?ks1 = "list_insert ?p pk ks" and ?ts1 = "list_insert (Suc ?p) s (ts[i := tc])"
    define U where "U = (\<Union>t\<in>set ts. f t)"
    define U' where "U' = (\<Union>t\<in>set (ts[i := tc]). f t)"
    have "tc \<in> set (ts[i := tc])" using rb(1) by (simp add: set_update_memI)
    then have 1: "f tc \<subseteq> U'" unfolding U'_def by blast
    have 2: "U' \<union> f (ts ! i) = U \<union> f tc"
      unfolding U_def U'_def by (rule Union_update[OF rb(1)])
    have 3: "f (ts ! i) \<subseteq> U" using fi by (simp add: U_def)
    have 4: "f s \<union> U' = insert k U" using 1 2 3 ih by blast
    have "(\<Union>t\<in>set ?ts1. f t) = f s \<union> U'" by (simp add: U'_def)
    then have u: "(\<Union>t\<in>set ?ts1. f t) = insert k (\<Union>t\<in>set ts. f t)"
      using 4 by (simp add: U_def)
    from promoted(2) "2.prems"(2) show ?thesis
    proof (cases rule: anode_ins_cases)
      case absorb
      then show ?thesis unfolding absorb(2,3) lk using u by simp
    next
      case (split si)
      show ?thesis unfolding split(5,6) lk
        using u Union_take_drop[of f "Suc si" ?ts1] unfolding f_def by simp
    qed
  qed
qed

lemma ains_present:
  assumes "ord t" and "capok cap t" and "k \<in> set (lkeys t)"
  shows "ains cap m t k = (t, None, m)"
  using assms
proof (induction cap m t k rule: ains.induct)
  case (1 cap m a ks k)
  then show ?case using leaf_put_present[of ks k] by (simp add: Let_def)
next
  case (2 cap m a ks ts k)
  define i where "i = bisect_right ks k"
  note rb = route_bounds[OF "2.prems"(1) i_def]
  have srt: "sorted_wrt (<) ks" and len: "length ts = Suc (length ks)"
    and B: "\<forall>j<length ts. \<forall>x\<in>akeys (ts ! j).
        (j < length ks \<longrightarrow> x < ks ! j) \<and> (0 < j \<longrightarrow> ks ! (j - 1) \<le> x)"
    using "2.prems"(1) by auto
  obtain tj where "tj \<in> set ts" "k \<in> set (lkeys tj)" using "2.prems"(3) by auto
  then obtain j where j: "j < length ts" "k \<in> set (lkeys (ts ! j))"
    by (metis in_set_conv_nth)
  then have "k \<in> akeys (ts ! j)" by (simp add: lkeys_in_akeys)
  then have kb: "j < length ks \<longrightarrow> k < ks ! j" "0 < j \<longrightarrow> ks ! (j - 1) \<le> k"
    using B j(1) by auto
  have "\<forall>l<j. ks ! l \<le> k"
  proof (intro allI impI)
    fix l assume "l < j"
    then have "l \<le> j - 1" "j - 1 < length ks" using j(1) len by auto
    then have "ks ! l \<le> ks ! (j - 1)" by (rule sorted_nth_le[OF srt])
    then show "ks ! l \<le> k" using kb(2) \<open>l < j\<close> by auto
  qed
  moreover have "\<forall>l. j \<le> l \<and> l < length ks \<longrightarrow> k < ks ! l"
  proof (intro allI impI)
    fix l assume l: "j \<le> l \<and> l < length ks"
    then have "ks ! j \<le> ks ! l" using sorted_nth_le[OF srt, of j l] by simp
    then show "k < ks ! l" using kb(1) l by auto
  qed
  ultimately have "bisect_right ks k = j"
    using bisect_right_eqI[OF strict_sorted_imp_sorted[OF srt], of j k] j(1) len by simp
  then have ij: "i = j" by (simp add: i_def)
  have "ord (ts ! i)" "capok cap (ts ! i)" using "2.prems"(1,2) rb(1) by auto
  then have "ains cap m (ts ! i) k = (ts ! i, None, m)"
    using "2.IH"[OF i_def rb(1)] j(2) ij by simp
  then show ?case using rb(1) by (simp add: i_def[symmetric])
qed

lemma concat_take_drop:
  "concat (map f (take n xs)) @ concat (map f (drop n xs)) = concat (map f xs)"
  by (metis append_take_drop_id concat_append map_append)

lemma mset_concat_take_drop:
  "mset (concat (map f (take n xs))) + mset (concat (map f (drop n xs))) = mset (concat (map f xs))"
  using concat_take_drop[of f n xs] by (metis mset_append)

lemma mset_concat_update:
  assumes "i < length xs"
  shows "mset (concat (map f (xs[i := y]))) + mset (f (xs ! i))
           = mset (concat (map f xs)) + mset (f y)"
proof -
  have 1: "xs = take i xs @ xs ! i # drop (Suc i) xs" using assms by (rule id_take_nth_drop)
  have 2: "xs[i := y] = take i xs @ y # drop (Suc i) xs" using assms by (rule upd_conv_take_nth_drop)
  have "mset (concat (map f xs)) = mset (concat (map f (take i xs @ xs ! i # drop (Suc i) xs)))"
    using 1 by simp
  then show ?thesis unfolding 2 by simp
qed

lemma mset_concat_list_insert:
  "mset (concat (map f (list_insert p y xs))) = mset (f y) + mset (concat (map f xs))"
  using mset_concat_take_drop[of f p xs] by (simp add: list_insert_def)

lemma ains_addrs_mset:
  assumes "1 \<le> cap" and "ains cap m t k = (t', sib, m')"
  shows "m \<le> m' \<and>
         (sib = None \<longrightarrow> mset (addrs t') = mset (addrs t) + mset [m..<m']) \<and>
         (\<forall>pk s. sib = Some (pk, s) \<longrightarrow>
            mset (addrs t') + mset (addrs s) = mset (addrs t) + mset [m..<m'] \<and>
            m' = Suc (root s))"
  using assms
proof (induction cap m t k arbitrary: t' sib m' rule: ains.induct)
  case (1 cap m a ks k)
  then show ?case by (auto simp: Let_def split: if_splits)
next
  case (2 cap m a ks ts k)
  define i where "i = bisect_right ks k"
  show ?case
  proof (cases "i < length ts")
    case False
    then show ?thesis using "2.prems" by (auto simp: i_def)
  next
    case True
    from "2.prems"(2) i_def True show ?thesis
    proof (cases rule: ains_node_cases)
      case (same tc)
      have ih: "m \<le> m'" "mset (addrs tc) = mset (addrs (ts ! i)) + mset [m..<m']"
        using "2.IH"[OF i_def True "2.prems"(1) same(1)] by blast+
      have "mset (concat (map addrs (ts[i := tc])))
          = mset (concat (map addrs ts)) + mset [m..<m']"
        using mset_concat_update[OF True, of addrs tc] ih(2) by simp
      then show ?thesis using same ih(1) by simp
    next
      case (promoted tc pk s mc)
      note IH = "2.IH"[OF i_def True "2.prems"(1) promoted(1)]
      have ih: "m \<le> mc" "mset (addrs tc) + mset (addrs s) = mset (addrs (ts ! i)) + mset [m..<mc]"
        "mc = Suc (root s)"
        using IH by blast+
      let ?p = "bisect_left ks pk"
      let ?ks1 = "list_insert ?p pk ks" and ?ts1 = "list_insert (Suc ?p) s (ts[i := tc])"
      have "mset (concat (map addrs ?ts1)) + mset (addrs (ts ! i))
          = mset (concat (map addrs ts)) + (mset (addrs tc) + mset (addrs s))"
        using mset_concat_update[OF True, of addrs tc]
        by (simp add: mset_concat_list_insert)
      also have "\<dots> = mset (concat (map addrs ts)) + (mset (addrs (ts ! i)) + mset [m..<mc])"
        by (simp only: ih(2))
      finally have "mset (concat (map addrs ?ts1)) + mset (addrs (ts ! i))
          = (mset (concat (map addrs ts)) + mset [m..<mc]) + mset (addrs (ts ! i))"
        by (simp only: ac_simps)
      then have u: "mset (concat (map addrs ?ts1))
          = mset (concat (map addrs ts)) + mset [m..<mc]"
        by (simp only: add_right_cancel)
      from promoted(2) "2.prems"(1) show ?thesis
      proof (cases rule: anode_ins_cases)
        case absorb
        then show ?thesis using u ih(1) by simp
      next
        case (split si)
        have "mset [m..<Suc mc] = mset [m..<mc] + {#mc#}" using ih(1) by simp
        then show ?thesis
          unfolding split(5,6,7) using u ih(1) mset_concat_take_drop[of addrs "Suc si" ?ts1]
          by simp
      qed
    qed
  qed
qed

lemma ains_addrs:
  assumes "distinct (addrs t)" and "\<forall>b\<in>set (addrs t). b < m" and "1 \<le> cap"
      and "ains cap m t k = (t', sib, m')"
  shows "distinct (addrs t' @ (case sib of None \<Rightarrow> [] | Some (pk, s) \<Rightarrow> addrs s))"
    and "set (addrs t') \<union> (case sib of None \<Rightarrow> {} | Some (pk, s) \<Rightarrow> set (addrs s))
           = set (addrs t) \<union> {m..<m'}"
proof -
  let ?r = "addrs t' @ (case sib of None \<Rightarrow> [] | Some (pk, s) \<Rightarrow> addrs s)"
  note a = ains_addrs_mset[OF assms(3,4)]
  have eq: "mset ?r = mset (addrs t @ [m..<m'])"
  proof (cases sib)
    case None
    then have "mset (addrs t') = mset (addrs t) + mset [m..<m']" using a by blast
    then show ?thesis using None by simp
  next
    case (Some p)
    obtain pk s where p: "p = (pk, s)" by (cases p)
    have "mset (addrs t') + mset (addrs s) = mset (addrs t) + mset [m..<m']"
      using a Some p by blast
    then show ?thesis using Some p by simp
  qed
  have "distinct (addrs t @ [m..<m'])" using assms(1,2) by auto
  then show "distinct ?r" using eq by (metis mset_eq_imp_distinct_iff)
  have "set ?r = set (addrs t @ [m..<m'])" using eq by (rule mset_eq_setD)
  then show "set (addrs t') \<union> (case sib of None \<Rightarrow> {} | Some (pk, s) \<Rightarrow> set (addrs s))
           = set (addrs t) \<union> {m..<m'}"
    by (cases sib) auto
qed

lemma lookup_Some: "lookup h a = Some ob \<Longrightarrow> a < length h \<and> h ! a = ob"
  by (auto simp: lookup_def split: if_splits)

lemma lookup_eqI: "a < length h \<Longrightarrow> h ! a = ob \<Longrightarrow> lookup h a = Some ob"
  by (simp add: lookup_def)

lemma repr_node:
  "repr cap h (ANode a ks ts) nxt =
     (lookup h a = Some (BPTreeNode ks (map root ts) cap) \<and> children_ok cap h ts nxt)"
  by (simp add: children_ok_def)

lemma repr_nodeD:
  assumes "repr cap h (ANode a ks ts) nxt"
  shows "lookup h a = Some (BPTreeNode ks (map root ts) cap)"
    and "\<And>i. i < length ts \<Longrightarrow>
      repr cap h (ts ! i) (if Suc i < length ts then Some (first_leaf (ts ! Suc i)) else nxt)"
  using assms by simp_all

declare repr.simps(2) [simp del]

lemma children_okD:
  "children_ok cap h ts nxt \<Longrightarrow> i < length ts \<Longrightarrow>
     repr cap h (ts ! i) (if Suc i < length ts then Some (first_leaf (ts ! Suc i)) else nxt)"
  by (simp add: children_ok_def)

lemma repr_bound: "repr cap h t nxt \<Longrightarrow> b \<in> set (addrs t) \<Longrightarrow> b < length h"
proof (induction t arbitrary: nxt)
  case (ALeaf a ks)
  then show ?case by (auto dest: lookup_Some)
next
  case (ANode a ks ts)
  note d = repr_nodeD[OF ANode.prems(1)]
  from ANode.prems(2) have "b = a \<or> (\<exists>t\<in>set ts. b \<in> set (addrs t))" by simp
  then show ?case
  proof
    assume "b = a"
    then show ?thesis using d(1) lookup_Some by blast
  next
    assume "\<exists>t\<in>set ts. b \<in> set (addrs t)"
    then obtain t where t: "t \<in> set ts" "b \<in> set (addrs t)" by blast
    then obtain i where i: "i < length ts" "ts ! i = t" by (meson in_set_conv_nth)
    show ?thesis using ANode.IH[OF t(1) _ t(2)] d(2)[OF i(1)] i(2) by blast
  qed
qed

lemma repr_frame:
  assumes "repr cap h t nxt" and "\<forall>b\<in>set (addrs t). b < length h' \<and> h' ! b = h ! b"
  shows "repr cap h' t nxt"
  using assms
proof (induction t arbitrary: nxt)
  case (ALeaf a ks)
  then show ?case by (auto simp: lookup_def split: if_splits)
next
  case (ANode a ks ts)
  note d = repr_nodeD[OF ANode.prems(1)]
  have "a < length h' \<and> h' ! a = h ! a" using ANode.prems(2) by simp
  then have 1: "lookup h' a = Some (BPTreeNode ks (map root ts) cap)"
    using lookup_Some[OF d(1)] by (simp add: lookup_def)
  have 2: "children_ok cap h' ts nxt"
    unfolding children_ok_def
  proof (intro allI impI)
    fix i assume i: "i < length ts"
    have m: "ts ! i \<in> set ts" using i by simp
    have "\<forall>b\<in>set (addrs (ts ! i)). b < length h' \<and> h' ! b = h ! b"
      using ANode.prems(2) m by auto
    then show "repr cap h' (ts ! i)
        (if Suc i < length ts then Some (first_leaf (ts ! Suc i)) else nxt)"
      using ANode.IH[OF m d(2)[OF i]] by blast
  qed
  show ?case using 1 2 by (simp add: repr_node)
qed

lemma children_ok_frame:
  assumes "children_ok cap h ts nxt"
      and "\<forall>t\<in>set ts. \<forall>b\<in>set (addrs t). b < length h' \<and> h' ! b = h ! b"
  shows "children_ok cap h' ts nxt"
  unfolding children_ok_def
proof (intro allI impI)
  fix i assume i: "i < length ts"
  have "\<forall>b\<in>set (addrs (ts ! i)). b < length h' \<and> h' ! b = h ! b"
    using assms(2) nth_mem[OF i] by blast
  then show "repr cap h' (ts ! i)
      (if Suc i < length ts then Some (first_leaf (ts ! Suc i)) else nxt)"
    using repr_frame[OF children_okD[OF assms(1) i]] by blast
qed

lemma leaf_insert_eq:
  assumes "1 \<le> cap"
  shows "BPTreeLeaf_insert h self ks nx cap key =
           (if int (length (leaf_put ks key)) > cap then
              Inr (Some (leaf_put ks key ! nat ((cap + 1) div 2), length h),
                   (h @ [BPTreeLeaf (drop (nat ((cap + 1) div 2)) (leaf_put ks key)) nx cap])
                     [self := BPTreeLeaf (take (nat ((cap + 1) div 2)) (leaf_put ks key))
                                (Some (length h)) cap])
            else Inr (None, h[self := BPTreeLeaf (leaf_put ks key) nx cap]))"
proof (cases "int (length (leaf_put ks key)) > cap")
  case False
  then show ?thesis by (simp add: BPTreeLeaf_insert_def Let_def)
next
  case True
  define ks1 where "ks1 = leaf_put ks key"
  define si where "si = nat ((cap + 1) div 2)"
  have si: "(cap + 1) div 2 = int si" using assms by (simp add: si_def)
  have lt: "si < length ks1" using True assms si by (simp add: ks1_def)
  have d: "drop si ks1 \<noteq> []" using lt by simp
  have g: "py_get (drop si ks1) 0 = Some (ks1 ! si)"
    using lt d by (cases "drop si ks1") (auto simp: py_get_def hd_drop_conv_nth[symmetric])
  show ?thesis
    using True g
    by (simp add: BPTreeLeaf_insert_def Let_def alloc_def si py_slice_from_nat py_slice_to_nat
        ks1_def[symmetric] si_def[symmetric])
qed

lemma children_ok_take:
  assumes "children_ok cap h ts nxt" and "n < length ts"
  shows "children_ok cap h (take n ts) (Some (first_leaf (ts ! n)))"
  unfolding children_ok_def
proof (intro allI impI)
  fix j assume "j < length (take n ts)"
  then have j: "j < n" by simp
  then have "repr cap h (ts ! j) (Some (first_leaf (ts ! Suc j)))"
    using children_okD[OF assms(1), of j] assms(2) by simp
  moreover have "Suc j < n \<or> Suc j = n" using j by auto
  ultimately show "repr cap h (take n ts ! j)
      (if Suc j < length (take n ts) then Some (first_leaf (take n ts ! Suc j))
       else Some (first_leaf (ts ! n)))"
    using j assms(2) by auto
qed

lemma children_ok_drop:
  assumes "children_ok cap h ts nxt"
  shows "children_ok cap h (drop n ts) nxt"
  unfolding children_ok_def
proof (intro allI impI)
  fix j assume "j < length (drop n ts)"
  then have j: "n + j < length ts" by simp
  have "repr cap h (ts ! (n + j))
      (if Suc (n + j) < length ts then Some (first_leaf (ts ! Suc (n + j))) else nxt)"
    using children_okD[OF assms j] .
  then show "repr cap h (drop n ts ! j)
      (if Suc j < length (drop n ts) then Some (first_leaf (drop n ts ! Suc j)) else nxt)"
    using j by (auto simp: add.commute less_diff_conv)
qed

lemma children_ok_update:
  assumes co: "children_ok cap h0 ts nxt" and i: "i < length ts"
      and fr: "\<forall>j<length ts. j \<noteq> i \<longrightarrow> (\<forall>b\<in>set (addrs (ts ! j)). b < length h \<and> h ! b = h0 ! b)"
      and rt: "repr cap h tc (if Suc i < length ts then Some (first_leaf (ts ! Suc i)) else nxt)"
      and fl: "first_leaf tc = first_leaf (ts ! i)"
  shows "children_ok cap h (ts[i := tc]) nxt"
  unfolding children_ok_def
proof (intro allI impI)
  fix j assume "j < length (ts[i := tc])"
  then have j: "j < length ts" by simp
  have nx: "(if Suc j < length (ts[i := tc]) then Some (first_leaf (ts[i := tc] ! Suc j)) else nxt)
      = (if Suc j < length ts then Some (first_leaf (ts ! Suc j)) else nxt)"
  proof (cases "Suc j = i")
    case True
    then show ?thesis using fl i by simp
  next
    case False
    then show ?thesis by simp
  qed
  show "repr cap h (ts[i := tc] ! j)
      (if Suc j < length (ts[i := tc]) then Some (first_leaf (ts[i := tc] ! Suc j)) else nxt)"
  proof (cases "j = i")
    case True
    then show ?thesis unfolding nx using rt i by (simp split: if_splits)
  next
    case False
    have "repr cap h (ts ! j) (if Suc j < length ts then Some (first_leaf (ts ! Suc j)) else nxt)"
      using repr_frame[OF children_okD[OF co j]] fr j False by blast
    then show ?thesis unfolding nx using False j by (simp split: if_splits)
  qed
qed

lemma children_ok_insert:
  assumes co: "children_ok cap h0 ts nxt" and i: "i < length ts"
      and fr: "\<forall>j<length ts. j \<noteq> i \<longrightarrow> (\<forall>b\<in>set (addrs (ts ! j)). b < length h \<and> h ! b = h0 ! b)"
      and rt: "repr cap h tc (Some (first_leaf s))"
      and rs: "repr cap h s (if Suc i < length ts then Some (first_leaf (ts ! Suc i)) else nxt)"
      and fl: "first_leaf tc = first_leaf (ts ! i)"
  shows "children_ok cap h (list_insert (Suc i) s (ts[i := tc])) nxt"
  unfolding children_ok_def
proof (intro allI impI)
  let ?ts1 = "list_insert (Suc i) s (ts[i := tc])"
  fix j assume "j < length ?ts1"
  then have j: "j \<le> length ts" by simp
  have tn: "\<And>l. l \<le> length ts \<Longrightarrow>
      ?ts1 ! l = (if l < i then ts ! l else if l = i then tc else if l = Suc i then s else ts ! (l - 1))"
    using node_children_nth[OF i] by blast
  have old: "\<And>l. l < length ts \<Longrightarrow> l \<noteq> i \<Longrightarrow>
      repr cap h (ts ! l) (if Suc l < length ts then Some (first_leaf (ts ! Suc l)) else nxt)"
    using repr_frame[OF children_okD[OF co]] fr by blast
  consider (a) "j < i" | (b) "j = i" | (c) "j = Suc i" | (d) "Suc i < j" by linarith
  then show "repr cap h (?ts1 ! j)
      (if Suc j < length ?ts1 then Some (first_leaf (?ts1 ! Suc j)) else nxt)"
  proof cases
    case a
    have "repr cap h (ts ! j) (Some (first_leaf (ts ! Suc j)))" using old[of j] a i by simp
    moreover have "first_leaf (?ts1 ! Suc j) = first_leaf (ts ! Suc j)"
    proof (cases "Suc j = i")
      case True
      then show ?thesis using tn[of i] i fl by simp
    next
      case False
      then show ?thesis using tn[of "Suc j"] a i by simp
    qed
    ultimately show ?thesis using a i tn[of j] by simp
  next
    case b
    then show ?thesis using rt i tn[of i] tn[of "Suc i"] by (simp split: if_splits)
  next
    case c
    have "Suc (Suc i) < length ?ts1 \<longleftrightarrow> Suc i < length ts" by simp
    moreover have "Suc i < length ts \<Longrightarrow> ?ts1 ! Suc (Suc i) = ts ! Suc i"
      using tn[of "Suc (Suc i)"] by simp
    ultimately show ?thesis using c rs tn[of "Suc i"] i by (simp split: if_splits)
  next
    case d
    have l: "j - 1 < length ts" "j - 1 \<noteq> i" using d j by auto
    have "repr cap h (ts ! (j - 1))
        (if Suc (j - 1) < length ts then Some (first_leaf (ts ! Suc (j - 1))) else nxt)"
      using old[OF l] .
    moreover have "Suc j < length ?ts1 \<longleftrightarrow> j < length ts" by simp
    moreover have "j < length ts \<Longrightarrow> ?ts1 ! Suc j = ts ! j" using tn[of "Suc j"] d by simp
    ultimately show ?thesis using d j tn[of j] by (simp split: if_splits)
  qed
qed

lemma map_list_insert: "map f (list_insert p y xs) = list_insert p (f y) (map f xs)"
  by (simp add: list_insert_def take_map drop_map)

lemma distinct_concat_disjoint:
  assumes "distinct (concat xss)" and "i < j" and "j < length xss"
  shows "set (xss ! i) \<inter> set (xss ! j) = {}"
proof -
  have 1: "xss = take j xss @ xss ! j # drop (Suc j) xss" using assms(3) by (rule id_take_nth_drop)
  have "xss ! i \<in> set (take j xss)" using assms(2,3) by (auto simp: in_set_conv_nth)
  then have 2: "set (xss ! i) \<subseteq> set (concat (take j xss))" by auto
  have "distinct (concat (take j xss @ xss ! j # drop (Suc j) xss))" using assms(1) 1 by simp
  then have "set (concat (take j xss)) \<inter> set (xss ! j) = {}" by auto
  then show ?thesis using 2 by blast
qed

lemma distinct_concat_nth:
  assumes "distinct (concat xss)" and "i < length xss"
  shows "distinct (xss ! i)"
proof -
  have 1: "xss = take i xss @ xss ! i # drop (Suc i) xss" using assms(2) by (rule id_take_nth_drop)
  have "distinct (concat (take i xss @ xss ! i # drop (Suc i) xss))" using assms(1) 1 by simp
  then show ?thesis by simp
qed

lemma node_addrs:
  assumes "distinct (addrs (ANode a ks ts))" and "i < length ts"
  shows "distinct (addrs (ts ! i))" and "a \<notin> set (addrs (ts ! i))"
    and "\<And>j. j < length ts \<Longrightarrow> j \<noteq> i \<Longrightarrow> set (addrs (ts ! j)) \<inter> set (addrs (ts ! i)) = {}"
proof -
  have d: "distinct (concat (map addrs ts))" and a: "a \<notin> set (concat (map addrs ts))"
    using assms(1) by auto
  show "distinct (addrs (ts ! i))" using distinct_concat_nth[OF d, of i] assms(2) by simp
  show "a \<notin> set (addrs (ts ! i))" using a assms(2) by auto
  fix j assume j: "j < length ts" "j \<noteq> i"
  show "set (addrs (ts ! j)) \<inter> set (addrs (ts ! i)) = {}"
  proof (cases "j < i")
    case True
    then show ?thesis using distinct_concat_disjoint[OF d, of j i] assms(2) j by simp
  next
    case False
    then have "i < j" using j by simp
    then show ?thesis using distinct_concat_disjoint[OF d, of i j] assms(2) j by auto
  qed
qed

lemma promoted_facts:
  assumes o: "ord (ANode a ks ts)" and c: "1 \<le> cap" and i: "i = bisect_right ks k"
      and r: "ains cap m (ts ! i) k = (tc, Some (pk, s), mc)"
  shows "bisect_left ks pk = i"
    and "ord (ANode a (list_insert i pk ks) (list_insert (Suc i) s (ts[i := tc])))"
proof -
  note rb = route_bounds[OF o i]
  have srt: "sorted_wrt (<) ks" and len: "length ts = Suc (length ks)"
    and B: "\<forall>x\<in>akeys (ts ! i). (i < length ks \<longrightarrow> x < ks ! i) \<and> (0 < i \<longrightarrow> ks ! (i - 1) \<le> x)"
    and oc: "ord (ts ! i)"
    using o rb(1) by auto
  have K: "\<forall>x\<in>insert k (akeys (ts ! i)).
      (i < length ks \<longrightarrow> x < ks ! i) \<and> (0 < i \<longrightarrow> ks ! (i - 1) \<le> x)"
    using B rb by auto
  have ih: "ord tc" "akeys tc \<subseteq> insert k (akeys (ts ! i))" "ord s"
    "akeys s \<subseteq> insert k (akeys (ts ! i))" "pk \<in> insert k (akeys (ts ! i))"
    "\<forall>x\<in>akeys tc. x < pk" "\<forall>x\<in>akeys s. pk \<le> x" "akeys tc \<noteq> {}"
    using ains_ord[OF oc c r] by auto
  have tcb: "\<forall>x\<in>akeys tc. (i < length ks \<longrightarrow> x < ks ! i) \<and> (0 < i \<longrightarrow> ks ! (i - 1) \<le> x)"
    using K ih(2) by blast
  have sb: "\<forall>x\<in>akeys s. (i < length ks \<longrightarrow> x < ks ! i) \<and> (0 < i \<longrightarrow> ks ! (i - 1) \<le> x)"
    using K ih(4) by blast
  have up: "i < length ks \<longrightarrow> pk < ks ! i" using K ih(5) by blast
  obtain x0 where x0: "x0 \<in> akeys tc" using ih(8) by auto
  have lo: "0 < i \<longrightarrow> ks ! (i - 1) < pk"
    using tcb ih(6) x0 by (meson le_less_trans)
  have ik: "i \<le> length ks" using rb(1) len by simp
  show "bisect_left ks pk = i" using sep_position[OF srt ik up lo] .
  show "ord (ANode a (list_insert i pk ks) (list_insert (Suc i) s (ts[i := tc])))"
    using ord_node_insert[OF o rb(1) ih(1) ih(3) tcb sb ih(6) ih(7) up lo] .
qed

lemma insert_here_eq:
  fixes ks1 :: "'k::linorder list"
  assumes "0 \<le> cap" and "ks1 = list_insert position key ks"
      and "ps1 = list_insert (Suc position) pointer ps"
      and "si = nat ((cap + 1) div 2)" and "distinct ks1"
  shows "BPTreeNode_insert_here h self ks ps cap position key pointer =
           (if int (length ks1) > cap then
              Inr (Some (ks1 ! si, length h),
                   (h @ [BPTreeNode (drop (Suc si) ks1) (drop (Suc si) ps1) cap])
                     [self := BPTreeNode (take si ks1) (take (Suc si) ps1) cap])
            else Inr (None, h[self := BPTreeNode ks1 ps1 cap]))"
proof (cases "int (length ks1) > cap")
  case False
  then show ?thesis using assms by (simp add: BPTreeNode_insert_here_def Let_def)
next
  case True
  have si: "int si = (cap + 1) div 2" using assms(1,4) by simp
  have lt: "si < length ks1" using True assms(1) si by linarith
  have g: "py_get ks1 ((cap + 1) div 2) = Some (ks1 ! si)"
    using py_get_nat[OF lt] si by simp
  have r: "remove1 (ks1 ! si) ks1 = take si ks1 @ drop (Suc si) ks1"
    using remove1_nth_distinct[OF assms(5) lt] .
  have len: "length (take si ks1) = si" using lt by simp
  have s1: "py_slice_from (take si ks1 @ drop (Suc si) ks1) ((cap + 1) div 2) = drop (Suc si) ks1"
    using py_slice_from_nat[of "take si ks1 @ drop (Suc si) ks1" si] si len by simp
  have s2: "py_slice_to (take si ks1 @ drop (Suc si) ks1) ((cap + 1) div 2) = take si ks1"
    using py_slice_to_nat[of "take si ks1 @ drop (Suc si) ks1" si] si len by simp
  have si': "(cap + 1) div 2 + 1 = int (Suc si)" using si by simp
  have s3: "py_slice_from ps1 ((cap + 1) div 2 + 1) = drop (Suc si) ps1"
    unfolding si' by (rule py_slice_from_nat)
  have s4: "py_slice_to ps1 ((cap + 1) div 2 + 1) = take (Suc si) ps1"
    unfolding si' by (rule py_slice_to_nat)
  show ?thesis
    using True assms(2,3) g r s1 s2 s3 s4
    by (simp add: BPTreeNode_insert_here_def Let_def alloc_def)
qed

lemma siblings_framed:
  assumes R: "repr cap h (ANode a ks ts) nxt" and D: "distinct (addrs (ANode a ks ts))"
      and i: "i < length ts" and le: "length h \<le> length h1"
      and fr: "\<forall>b<length h. b \<notin> set (addrs (ts ! i)) \<longrightarrow> h1 ! b = h ! b"
  shows "\<forall>j<length ts. j \<noteq> i \<longrightarrow> (\<forall>b\<in>set (addrs (ts ! j)). b < length h1 \<and> h1 ! b = h ! b)"
    and "lookup h1 a = Some (BPTreeNode ks (map root ts) cap)"
proof -
  note d = repr_nodeD[OF R]
  show "\<forall>j<length ts. j \<noteq> i \<longrightarrow> (\<forall>b\<in>set (addrs (ts ! j)). b < length h1 \<and> h1 ! b = h ! b)"
  proof (intro allI impI ballI)
    fix j b assume j: "j < length ts" "j \<noteq> i" and b: "b \<in> set (addrs (ts ! j))"
    have bl: "b < length h" using repr_bound[OF d(2)[OF j(1)] b] .
    have "b \<notin> set (addrs (ts ! i))" using node_addrs(3)[OF D i j] b by blast
    then show "b < length h1 \<and> h1 ! b = h ! b" using fr bl le by simp
  qed
  have "a < length h" "h ! a = BPTreeNode ks (map root ts) cap" using lookup_Some[OF d(1)] by auto
  moreover have "a \<notin> set (addrs (ts ! i))" using node_addrs(2)[OF D i] .
  ultimately show "lookup h1 a = Some (BPTreeNode ks (map root ts) cap)"
    using fr le by (simp add: lookup_def)
qed

lemma node_step_same:
  assumes R: "repr cap h (ANode a ks ts) nxt" and D: "distinct (addrs (ANode a ks ts))"
      and i: "i < length ts" and le: "length h \<le> length h1"
      and fr: "\<forall>b<length h. b \<notin> set (addrs (ts ! i)) \<longrightarrow> h1 ! b = h ! b"
      and rt: "repr cap h1 tc (if Suc i < length ts then Some (first_leaf (ts ! Suc i)) else nxt)"
      and ro: "root tc = root (ts ! i)" and fl: "first_leaf tc = first_leaf (ts ! i)"
  shows "repr cap h1 (ANode a ks (ts[i := tc])) nxt"
proof -
  note d = repr_nodeD[OF R]
  note sf = siblings_framed[OF R D i le fr]
  have co: "children_ok cap h ts nxt" using R by (simp add: repr_node)
  have 1: "children_ok cap h1 (ts[i := tc]) nxt"
    using children_ok_update[OF co i sf(1) rt fl] .
  have "map root (ts[i := tc]) = (map root ts)[i := root (ts ! i)]"
    using ro by (simp add: map_update)
  then have 2: "map root (ts[i := tc]) = map root ts"
    using i by (simp add: list_update_same_conv)
  show ?thesis using 1 2 sf(2) by (simp add: repr_node)
qed

lemma node_step_promoted:
  assumes R: "repr cap h (ANode a ks ts) nxt" and D: "distinct (addrs (ANode a ks ts))"
      and i: "i < length ts" and len: "length ts = Suc (length ks)" and c: "1 \<le> cap"
      and le: "length h \<le> length h1"
      and fr: "\<forall>b<length h. b \<notin> set (addrs (ts ! i)) \<longrightarrow> h1 ! b = h ! b"
      and rt: "repr cap h1 tc (Some (first_leaf s))"
      and rs: "repr cap h1 s (if Suc i < length ts then Some (first_leaf (ts ! Suc i)) else nxt)"
      and ro: "root tc = root (ts ! i)" and fl: "first_leaf tc = first_leaf (ts ! i)"
      and na: "a \<notin> set (addrs tc)" "a \<notin> set (addrs s)"
      and dk: "distinct (list_insert i pk ks)"
      and A: "anode_ins cap (length h1) a ks (ts[i := tc]) i pk s = (t', sib, m')"
  shows "\<exists>h2. BPTreeNode_insert_here h1 a ks (map root ts) cap i pk (root s)
              = Inr (map_option (\<lambda>(pk, s). (pk, root s)) sib, h2)
           \<and> length h2 = m' \<and> (\<forall>b<length h1. b \<noteq> a \<longrightarrow> h2 ! b = h1 ! b)
           \<and> (sib = None \<longrightarrow> repr cap h2 t' nxt)
           \<and> (\<forall>pk' s'. sib = Some (pk', s') \<longrightarrow>
                 repr cap h2 t' (Some (first_leaf s')) \<and> repr cap h2 s' nxt)"
proof -
  let ?ks1 = "list_insert i pk ks" and ?ts1 = "list_insert (Suc i) s (ts[i := tc])"
  let ?ps1 = "list_insert (Suc i) (root s) (map root ts)"
  define si where "si = nat ((cap + 1) div 2)"
  note d = repr_nodeD[OF R]
  note sf = siblings_framed[OF R D i le fr]
  have co: "children_ok cap h ts nxt" using R by (simp add: repr_node)
  have al: "a < length h1" using lookup_Some[OF sf(2)] by simp
  have CH: "children_ok cap h1 ?ts1 nxt"
    using children_ok_insert[OF co i sf(1) rt rs fl] .
  have "map root (ts[i := tc]) = (map root ts)[i := root (ts ! i)]"
    using ro by (simp add: map_update)
  then have "map root (ts[i := tc]) = map root ts"
    using i by (simp add: list_update_same_conv)
  then have ps: "?ps1 = map root ?ts1" by (simp add: map_list_insert)
  have c0: "0 \<le> cap" using c by simp
  note eq = insert_here_eq[OF c0 refl refl si_def dk, where h = h1 and self = a
      and pointer = "root s" and ps = "map root ts"]
  have nac: "\<forall>t\<in>set ?ts1. a \<notin> set (addrs t)"
  proof
    fix t assume "t \<in> set ?ts1"
    then have "t = s \<or> t = tc \<or> t \<in> set ts"
      using node_children_set[of "Suc i" s ts i tc] by auto
    moreover have "a \<notin> set (addrs u)" if "u \<in> set ts" for u
      using D that by auto
    ultimately show "a \<notin> set (addrs t)" using na by blast
  qed
  have bnd: "\<forall>t\<in>set ?ts1. \<forall>b\<in>set (addrs t). b < length h1"
  proof (intro ballI)
    fix t b assume "t \<in> set ?ts1" and b: "b \<in> set (addrs t)"
    then obtain j where j: "j < length ?ts1" "?ts1 ! j = t" by (meson in_set_conv_nth)
    show "b < length h1" using repr_bound[OF children_okD[OF CH j(1)]] b j(2) by simp
  qed
  have nb: "b < length h1 \<and> b \<noteq> a" if "t \<in> set ?ts1" "b \<in> set (addrs t)" for t b
    using nac bnd that by blast
  show ?thesis
  proof (cases "int (length ?ks1) > cap")
    case False
    define h2 where "h2 = h1[a := BPTreeNode ?ks1 ?ps1 cap]"
    have res: "t' = ANode a ?ks1 ?ts1" "sib = None" "m' = length h1"
      using A False by (auto simp: anode_ins_def Let_def)
    have e: "BPTreeNode_insert_here h1 a ks (map root ts) cap i pk (root s) = Inr (None, h2)"
      using eq False by (simp add: h2_def)
    have "\<forall>t\<in>set ?ts1. \<forall>b\<in>set (addrs t). b < length h2 \<and> h2 ! b = h1 ! b"
    proof (intro ballI)
      fix t b assume "t \<in> set ?ts1" "b \<in> set (addrs t)"
      then have "b < length h1 \<and> b \<noteq> a" by (rule nb)
      then show "b < length h2 \<and> h2 ! b = h1 ! b" by (simp add: h2_def)
    qed
    then have "children_ok cap h2 ?ts1 nxt" using children_ok_frame[OF CH] by blast
    moreover have "lookup h2 a = Some (BPTreeNode ?ks1 (map root ?ts1) cap)"
      using al ps by (simp add: h2_def lookup_def)
    ultimately have "repr cap h2 t' nxt" unfolding res(1) by (simp add: repr_node)
    moreover have "length h2 = m'" using res(3) by (simp add: h2_def)
    moreover have "\<forall>b<length h1. b \<noteq> a \<longrightarrow> h2 ! b = h1 ! b" by (simp add: h2_def)
    ultimately show ?thesis using e res(2) by auto
  next
    case True
    define L where "L = ANode a (take si ?ks1) (take (Suc si) ?ts1)"
    define Rt where "Rt = ANode (length h1) (drop (Suc si) ?ks1) (drop (Suc si) ?ts1)"
    define h2 where "h2 = (h1 @ [BPTreeNode (drop (Suc si) ?ks1) (drop (Suc si) ?ps1) cap])
        [a := BPTreeNode (take si ?ks1) (take (Suc si) ?ps1) cap]"
    have res: "t' = L" "sib = Some (?ks1 ! si, Rt)" "m' = Suc (length h1)"
      using A True by (auto simp: anode_ins_def Let_def si_def L_def Rt_def)
    have sl: "si \<le> length ks" using True c by (auto simp: si_def)
    have sl1: "Suc si < length ?ts1" using sl len by simp
    have e: "BPTreeNode_insert_here h1 a ks (map root ts) cap i pk (root s)
        = Inr (Some (?ks1 ! si, length h1), h2)"
      using eq True by (simp add: h2_def)
    have "\<forall>t\<in>set ?ts1. \<forall>b\<in>set (addrs t). b < length h2 \<and> h2 ! b = h1 ! b"
    proof (intro ballI)
      fix t b assume "t \<in> set ?ts1" "b \<in> set (addrs t)"
      then have "b < length h1 \<and> b \<noteq> a" by (rule nb)
      then show "b < length h2 \<and> h2 ! b = h1 ! b" by (simp add: h2_def nth_append)
    qed
    then have CH2: "children_ok cap h2 ?ts1 nxt" using children_ok_frame[OF CH] by blast
    have dne: "drop (Suc si) ?ts1 \<noteq> []" using sl1 by simp
    have flR: "first_leaf Rt = first_leaf (?ts1 ! Suc si)"
      unfolding Rt_def using dne sl1 by (simp add: first_leaf_hd hd_drop_conv_nth)
    have l1: "lookup h2 a = Some (BPTreeNode (take si ?ks1) (map root (take (Suc si) ?ts1)) cap)"
      using al ps by (simp add: h2_def lookup_def take_map)
    have l2: "lookup h2 (length h1)
        = Some (BPTreeNode (drop (Suc si) ?ks1) (map root (drop (Suc si) ?ts1)) cap)"
      using al ps by (simp add: h2_def lookup_def drop_map nth_append)
    have rL: "repr cap h2 L (Some (first_leaf Rt))"
      unfolding flR L_def using l1 children_ok_take[OF CH2 sl1] by (simp add: repr_node)
    have rR: "repr cap h2 Rt nxt"
      unfolding Rt_def using l2 children_ok_drop[OF CH2, of "Suc si"] by (simp add: repr_node)
    have "length h2 = m'" using res(3) by (simp add: h2_def)
    moreover have "\<forall>b<length h1. b \<noteq> a \<longrightarrow> h2 ! b = h1 ! b"
      by (simp add: h2_def nth_append)
    moreover have "root Rt = length h1" by (simp add: Rt_def)
    ultimately show ?thesis using e rL rR res(1,2) by auto
  qed
qed

lemma nth_opt_map: "i < length xs \<Longrightarrow> nth_opt (map f xs) i = Some (f (xs ! i))"
  by (simp add: nth_opt_def)

lemma insert_refines:
  assumes "m = length h" and "repr cap h t nxt" and "distinct (addrs t)" and "ord t"
      and "1 \<le> cap" and "bal n t" and "n < fuel" and "ains cap m t k = (t', sib, m')"
  shows "\<exists>h'. insert_key fuel h (root t) k = Inr (map_option (\<lambda>(pk, s). (pk, root s)) sib, h')
           \<and> length h' = m' \<and> (\<forall>b<length h. b \<notin> set (addrs t) \<longrightarrow> h' ! b = h ! b)
           \<and> (sib = None \<longrightarrow> repr cap h' t' nxt)
           \<and> (\<forall>pk s. sib = Some (pk, s) \<longrightarrow>
                 repr cap h' t' (Some (first_leaf s)) \<and> repr cap h' s nxt)"
  using assms
proof (induction cap m t k arbitrary: h nxt n fuel t' sib m' rule: ains.induct)
  case (1 cap m a ks k)
  obtain f where f: "fuel = Suc f" using "1.prems"(7) by (cases fuel) auto
  have lk: "lookup h a = Some (BPTreeLeaf ks nxt cap)" using "1.prems"(2) by simp
  have al: "a < length h" using lookup_Some[OF lk] by simp
  define ks1 where "ks1 = leaf_put ks k"
  define si where "si = nat ((cap + 1) div 2)"
  have ik: "insert_key fuel h a k = BPTreeLeaf_insert h a ks nxt cap k"
    using lk by (simp add: f)
  note eq = leaf_insert_eq[OF "1.prems"(5), of h a ks nxt k, folded ks1_def si_def]
  show ?case
  proof (cases "int (length ks1) > cap")
    case False
    have res: "t' = ALeaf a ks1" "sib = None" "m' = m"
      using False "1.prems"(8) by (auto simp: ks1_def Let_def)
    have "insert_key fuel h a k = Inr (None, h[a := BPTreeLeaf ks1 nxt cap])"
      using ik eq False by simp
    moreover have "repr cap (h[a := BPTreeLeaf ks1 nxt cap]) t' nxt"
      using al by (simp add: res(1) lookup_def)
    ultimately show ?thesis using res "1.prems"(1) by simp
  next
    case True
    define h2 where "h2 = (h @ [BPTreeLeaf (drop si ks1) nxt cap])
        [a := BPTreeLeaf (take si ks1) (Some (length h)) cap]"
    have res: "t' = ALeaf a (take si ks1)" "sib = Some (ks1 ! si, ALeaf m (drop si ks1))"
      "m' = Suc m"
      using True "1.prems"(8) by (auto simp: ks1_def si_def Let_def)
    have "insert_key fuel h a k = Inr (Some (ks1 ! si, length h), h2)"
      using ik eq True by (simp add: h2_def)
    moreover have "repr cap h2 t' (Some m)"
      using al "1.prems"(1) by (simp add: res(1) h2_def lookup_def)
    moreover have "repr cap h2 (ALeaf m (drop si ks1)) nxt"
      using al "1.prems"(1) by (simp add: h2_def lookup_def nth_append)
    moreover have "length h2 = m'" using res(3) "1.prems"(1) by (simp add: h2_def)
    moreover have "\<forall>b<length h. b \<notin> set (addrs (ALeaf a ks)) \<longrightarrow> h2 ! b = h ! b"
      by (simp add: h2_def nth_append)
    ultimately show ?thesis using res(2) "1.prems"(1) by simp
  qed
next
  case (2 cap m a ks ts k)
  define i where "i = bisect_right ks k"
  obtain f where f: "fuel = Suc f" using "2.prems"(7) by (cases fuel) auto
  obtain n' where n: "n = Suc n'" and bc: "\<forall>t\<in>set ts. bal n' t"
    using "2.prems"(6) by (cases n) auto
  note R = "2.prems"(2) and D = "2.prems"(3) and O = "2.prems"(4) and c = "2.prems"(5)
  note rb = route_bounds[OF O i_def]
  note d = repr_nodeD[OF R]
  note na = node_addrs[OF D rb(1)]
  have len: "length ts = Suc (length ks)" and oi: "ord (ts ! i)" using O rb(1) by auto
  have bi: "bal n' (ts ! i)" using bc rb(1) by simp
  have nf: "n' < f" using "2.prems"(7) n f by simp
  have ri: "repr cap h (ts ! i) (if Suc i < length ts then Some (first_leaf (ts ! Suc i)) else nxt)"
    using d(2)[OF rb(1)] .
  have bd: "\<forall>b\<in>set (addrs (ts ! i)). b < m"
    using repr_bound[OF ri] "2.prems"(1) by blast
  have al: "a < length h" using lookup_Some[OF d(1)] by simp
  have sub: "set (addrs (ts ! i)) \<subseteq> set (addrs (ANode a ks ts))" using rb(1) by auto
  have step: "insert_key fuel h a k =
      (case insert_key f h (root (ts ! i)) k of
         Inl e \<Rightarrow> Inl e
       | Inr (None, h') \<Rightarrow> Inr (None, h')
       | Inr (Some (pkey, ppointer), h') \<Rightarrow>
           (case lookup h' a of
              Some (BPTreeNode ks' ps' cap') \<Rightarrow>
                BPTreeNode_insert_here h' a ks' ps' cap' (bisect_left ks' pkey) pkey ppointer
            | _ \<Rightarrow> Inl AttributeError))"
    using d(1) rb(1) by (simp add: f i_def[symmetric] nth_opt_map)
  from "2.prems"(8) i_def rb(1) show ?case
  proof (cases rule: ains_node_cases)
    case (same tc)
    obtain h1 where h1: "insert_key f h (root (ts ! i)) k = Inr (None, h1)" "length h1 = m'"
      "\<forall>b<length h. b \<notin> set (addrs (ts ! i)) \<longrightarrow> h1 ! b = h ! b"
      "repr cap h1 tc (if Suc i < length ts then Some (first_leaf (ts ! Suc i)) else nxt)"
      using "2.IH"[OF i_def rb(1) "2.prems"(1) ri na(1) oi c bi nf same(1)] by auto
    have le: "length h \<le> length h1"
      using ains_addrs_mset[OF c same(1)] h1(2) "2.prems"(1) by simp
    have "repr cap h1 (ANode a ks (ts[i := tc])) nxt"
      using node_step_same[OF R D rb(1) le h1(3,4) ains_root[OF same(1)] ains_first_leaf[OF same(1)]] .
    moreover have "insert_key fuel h a k = Inr (None, h1)" using step h1(1) by simp
    moreover have "\<forall>b<length h. b \<notin> set (addrs (ANode a ks ts)) \<longrightarrow> h1 ! b = h ! b"
      using h1(3) sub by blast
    ultimately show ?thesis using same(2,3) h1(2) by simp
  next
    case (promoted tc pk s mc)
    obtain h1 where h1: "insert_key f h (root (ts ! i)) k = Inr (Some (pk, root s), h1)"
      "length h1 = mc"
      "\<forall>b<length h. b \<notin> set (addrs (ts ! i)) \<longrightarrow> h1 ! b = h ! b"
      "repr cap h1 tc (Some (first_leaf s))"
      "repr cap h1 s (if Suc i < length ts then Some (first_leaf (ts ! Suc i)) else nxt)"
      using "2.IH"[OF i_def rb(1) "2.prems"(1) ri na(1) oi c bi nf promoted(1)] by auto
    have le: "length h \<le> length h1"
      using ains_addrs_mset[OF c promoted(1)] h1(2) "2.prems"(1) by simp
    note pf = promoted_facts[OF O c i_def promoted(1)]
    have "sorted_wrt (<) (list_insert i pk ks)" using pf(2) by simp
    then have dk: "distinct (list_insert i pk ks)" using strict_sorted_iff by blast
    have "set (addrs tc) \<union> set (addrs s) = set (addrs (ts ! i)) \<union> {m..<mc}"
      using ains_addrs(2)[OF na(1) bd c promoted(1)] by simp
    moreover have "a < m" using al "2.prems"(1) by simp
    ultimately have nat: "a \<notin> set (addrs tc)" "a \<notin> set (addrs s)" using na(2) by auto
    have A: "anode_ins cap (length h1) a ks (ts[i := tc]) i pk s = (t', sib, m')"
      using promoted(2) pf(1) h1(2) by simp
    note sf = siblings_framed[OF R D rb(1) le h1(3)]
    obtain h2 where h2: "BPTreeNode_insert_here h1 a ks (map root ts) cap i pk (root s)
              = Inr (map_option (\<lambda>(pk, s). (pk, root s)) sib, h2)"
      "length h2 = m'" "\<forall>b<length h1. b \<noteq> a \<longrightarrow> h2 ! b = h1 ! b"
      "sib = None \<longrightarrow> repr cap h2 t' nxt"
      "\<forall>pk' s'. sib = Some (pk', s') \<longrightarrow>
                 repr cap h2 t' (Some (first_leaf s')) \<and> repr cap h2 s' nxt"
      using node_step_promoted[OF R D rb(1) len c le h1(3,4,5) ains_root[OF promoted(1)]
          ains_first_leaf[OF promoted(1)] nat dk A] by blast
    have "insert_key fuel h a k = Inr (map_option (\<lambda>(pk, s). (pk, root s)) sib, h2)"
      using step h1(1) sf(2) h2(1) pf(1) by simp
    moreover have "\<forall>b<length h. b \<notin> set (addrs (ANode a ks ts)) \<longrightarrow> h2 ! b = h ! b"
    proof (intro allI impI)
      fix b assume b: "b < length h" "b \<notin> set (addrs (ANode a ks ts))"
      then have "b \<noteq> a" "b \<notin> set (addrs (ts ! i))" using sub by auto
      then show "h2 ! b = h ! b" using h2(3) h1(3) b(1) le by simp
    qed
    ultimately show ?thesis using h2(2,4,5) by simp
  qed
qed

lemma bal_aheight: "bal n t \<Longrightarrow> aheight t = n"
proof (induction t arbitrary: n)
  case (ALeaf a ks)
  then show ?case by simp
next
  case (ANode a ks ts)
  obtain m where m: "n = Suc m" "ts \<noteq> []" "\<forall>t\<in>set ts. bal m t"
    using ANode.prems by (cases n) auto
  obtain t0 r where ts: "ts = t0 # r" using m(2) by (cases ts) auto
  have "aheight t0 = m" using ANode.IH[of t0 m] m(3) ts by simp
  then show ?case using ts m(1) by simp
qed

lemma init_inv:
  assumes "1 \<le> cap"
  shows "tree_inv \<lparr>heap = [BPTreeLeaf [] None cap], tree = 0, capacity = cap\<rparr> (ALeaf 0 [])"
  using assms by (auto simp: tree_inv_def lookup_def)

lemma repr_determines:
  assumes "repr cap h t nxt" and "repr cap h' t nxt" and "b \<in> set (addrs t)"
  shows "h' ! b = h ! b"
  using assms
proof (induction t arbitrary: nxt)
  case (ALeaf a ks)
  then show ?case by (auto dest!: lookup_Some)
next
  case (ANode a ks ts)
  note d = repr_nodeD[OF ANode.prems(1)] and d' = repr_nodeD[OF ANode.prems(2)]
  from ANode.prems(3) have "b = a \<or> (\<exists>t\<in>set ts. b \<in> set (addrs t))" by simp
  then show ?case
  proof
    assume "b = a"
    then show ?thesis using lookup_Some[OF d(1)] lookup_Some[OF d'(1)] by simp
  next
    assume "\<exists>t\<in>set ts. b \<in> set (addrs t)"
    then obtain t where t: "t \<in> set ts" "b \<in> set (addrs t)" by blast
    then obtain i where i: "i < length ts" "ts ! i = t" by (meson in_set_conv_nth)
    show ?thesis using ANode.IH[OF t(1) _ _ t(2)] d(2)[OF i(1)] d'(2)[OF i(1)] i(2) by blast
  qed
qed

lemma repr_append:
  assumes "repr cap h t nxt"
  shows "repr cap (h @ xs) t nxt"
proof (rule repr_frame[OF assms])
  show "\<forall>b\<in>set (addrs t). b < length (h @ xs) \<and> (h @ xs) ! b = h ! b"
  proof
    fix b assume "b \<in> set (addrs t)"
    then have "b < length h" by (rule repr_bound[OF assms])
    then show "b < length (h @ xs) \<and> (h @ xs) ! b = h ! b" by (simp add: nth_append)
  qed
qed

lemma insert_step:
  assumes inv: "tree_inv T t" and fu: "aheight t < fuel"
  shows "\<exists>T' t' r h'. BPTree_insert fuel T k = Inr T' \<and> tree_inv T' t'
           \<and> set (lkeys t') = insert k (set (lkeys t)) \<and> capacity T' = capacity T
           \<and> (k \<in> set (lkeys t) \<longrightarrow> T' = T)
           \<and> insert_key fuel (heap T) (tree T) k = Inr (r, h')
           \<and> (r = None \<longrightarrow> tree T' = tree T \<and> aheight t' = aheight t)
           \<and> (\<forall>pk pp. r = Some (pk, pp) \<longrightarrow>
                 heap T' = h' @ [BPTreeNode [pk] [tree T, pp] (capacity T)]
                 \<and> tree T' = length h' \<and> aheight t' = Suc (aheight t))"
proof -
  let ?cap = "capacity T" and ?h = "heap T"
  have c: "1 \<le> ?cap" and R: "repr ?cap ?h t None" and rt: "root t = tree T" and O: "ord t"
    and C: "capok ?cap t" and B: "bal (aheight t) t" and D: "distinct (addrs t)"
    and S: "set (addrs t) = {..<length ?h}"
    using inv by (auto simp: tree_inv_def)
  obtain t1 sib m' where A: "ains ?cap (length ?h) t k = (t1, sib, m')"
    by (cases "ains ?cap (length ?h) t k")
  obtain h1 where h1: "insert_key fuel ?h (tree T) k
        = Inr (map_option (\<lambda>(pk, s). (pk, root s)) sib, h1)"
      "length h1 = m'" "sib = None \<longrightarrow> repr ?cap h1 t1 None"
      "\<forall>pk s. sib = Some (pk, s) \<longrightarrow> repr ?cap h1 t1 (Some (first_leaf s)) \<and> repr ?cap h1 s None"
    using insert_refines[OF refl R D O c B fu A] rt by auto
  note o1 = ains_ord[OF O c A] and c1 = ains_capok[OF C c A] and b1 = ains_bal[OF B O c A]
  note l1 = ains_lkeys[OF O c A] and r1 = ains_root[OF A]
  have bd: "\<forall>b\<in>set (addrs t). b < length ?h" using S by auto
  note a1 = ains_addrs[OF D bd c A]
  have mm: "length ?h \<le> m'" using ains_addrs_mset[OF c A] by blast
  have iv: "{..<length ?h} \<union> {length ?h..<m'} = {..<m'}"
    using mm by (rule ivl_disj_un_one(2))
  have ot: "ord t1" using o1 by blast
  have ct: "capok ?cap t1" using c1 by blast
  have bt: "bal (aheight t) t1" using b1 by blast
  show ?thesis
  proof (cases sib)
    case None
    define T' where "T' = T\<lparr>heap := h1\<rparr>"
    have e: "BPTree_insert fuel T k = Inr T'"
      using h1(1) None by (simp add: BPTree_insert_def T'_def)
    have ik: "insert_key fuel ?h (tree T) k = Inr (None, h1)" using h1(1) None by simp
    have ah: "aheight t1 = aheight t" using bal_aheight[OF bt] .
    have "set (addrs t1) = set (addrs t) \<union> {length ?h..<m'}" using a1(2) None by simp
    then have st: "set (addrs t1) = {..<length h1}" using S iv h1(2) by simp
    have dt: "distinct (addrs t1)" using a1(1) None by simp
    have rr: "repr ?cap h1 t1 None" using h1(3) None by simp
    have ti: "tree_inv T' t1"
      using c rr r1 rt ot ct bt dt st ah by (simp add: tree_inv_def T'_def)
    have lk: "set (lkeys t1) = insert k (set (lkeys t))" using l1 None by simp
    have same: "T' = T" if "k \<in> set (lkeys t)"
    proof -
      have "ains ?cap (length ?h) t k = (t, None, length ?h)"
        using ains_present[OF O C that] .
      then have eq: "t1 = t" "m' = length ?h" using A by auto
      have r: "repr ?cap h1 t None" using h1(3) None eq by simp
      have "h1 = ?h"
      proof (rule nth_equalityI)
        show "length h1 = length ?h" using h1(2) eq by simp
        fix b assume "b < length h1"
        then have "b \<in> set (addrs t)" using S h1(2) eq by simp
        then show "h1 ! b = ?h ! b" using repr_determines[OF R r] by blast
      qed
      then show ?thesis by (simp add: T'_def)
    qed
    have cp: "capacity T' = capacity T" and tr: "tree T' = tree T" by (simp_all add: T'_def)
    show ?thesis
      by (rule exI[where x = T'], rule exI[where x = t1], rule exI[where x = None],
          rule exI[where x = h1]) (use e ti lk same cp tr ik ah in simp)
  next
    case (Some p)
    obtain pk s where p: "p = (pk, s)" by (cases p)
    define nr where "nr = ANode (length h1) [pk] [t1, s]"
    define T' where "T' = T\<lparr>heap := h1 @ [BPTreeNode [pk] [tree T, root s] ?cap], tree := length h1\<rparr>"
    have e: "BPTree_insert fuel T k = Inr T'"
      using h1(1) Some p by (simp add: BPTree_insert_def T'_def alloc_def)
    have ik: "insert_key fuel ?h (tree T) k = Inr (Some (pk, root s), h1)"
      using h1(1) Some p by simp
    have sp: "sib = Some (pk, s)" using Some p by simp
    have o: "ord t1" "ord s" "\<forall>x\<in>akeys t1. x < pk" "\<forall>x\<in>akeys s. pk \<le> x"
      using o1 sp by blast+
    have r: "repr ?cap h1 t1 (Some (first_leaf s))" "repr ?cap h1 s None"
      using h1(4) sp by blast+
    have bs: "bal (aheight t) t1" "bal (aheight t) s" using b1 sp by blast+
    have cs: "capok ?cap t1" "capok ?cap s" using c1 sp by blast+
    have ad1: "distinct (addrs t1 @ addrs s)" using a1(1) sp by simp
    have "set (addrs t1) \<union> set (addrs s) = set (addrs t) \<union> {length ?h..<m'}"
      using a1(2) sp by simp
    then have ad2: "set (addrs t1) \<union> set (addrs s) = {..<length h1}"
      using S iv h1(2) by simp
    let ?h2 = "h1 @ [BPTreeNode [pk] [tree T, root s] ?cap]"
    have f1: "repr ?cap ?h2 t1 (Some (first_leaf s))" using r(1) by (rule repr_append)
    have f2: "repr ?cap ?h2 s None" using r(2) by (rule repr_append)
    have co: "children_ok ?cap ?h2 [t1, s] None"
      using f1 f2 by (simp add: children_ok_def nth_Cons')
    have R': "repr ?cap ?h2 nr None"
      using co r1 rt by (simp add: nr_def repr_node lookup_def)
    have O': "ord nr" using o by (auto simp: nr_def nth_Cons')
    have C': "capok ?cap nr" using cs c by (simp add: nr_def)
    have ah: "aheight nr = Suc (aheight t)" using bal_aheight[OF bs(1)] by (simp add: nr_def)
    have B': "bal (aheight nr) nr" using bs ah by (simp add: nr_def)
    have nl: "length h1 \<notin> set (addrs t1) \<union> set (addrs s)" using ad2 by simp
    have D': "distinct (addrs nr)" using ad1 nl by (simp add: nr_def)
    have "set (addrs nr) = insert (length h1) (set (addrs t1) \<union> set (addrs s))"
      by (simp add: nr_def)
    then have S': "set (addrs nr) = {..<length ?h2}"
      unfolding ad2 by (simp add: lessThan_Suc)
    have rn: "root nr = length h1" by (simp add: nr_def)
    have ti: "tree_inv T' nr"
      using c R' O' C' B' D' S' rn by (simp add: tree_inv_def T'_def)
    have lk: "set (lkeys nr) = insert k (set (lkeys t))"
      using l1 Some p by (simp add: nr_def)
    have nk: "k \<notin> set (lkeys t)"
    proof
      assume "k \<in> set (lkeys t)"
      then have "ains ?cap (length ?h) t k = (t, None, length ?h)"
        using ains_present[OF O C] by blast
      then show False using A Some by simp
    qed
    have cp: "capacity T' = capacity T" and tr: "tree T' = length h1"
      and hp: "heap T' = h1 @ [BPTreeNode [pk] [tree T, root s] ?cap]"
      by (simp_all add: T'_def)
    show ?thesis
      by (rule exI[where x = T'], rule exI[where x = nr],
          rule exI[where x = "Some (pk, root s)"], rule exI[where x = h1])
        (use e ti lk nk cp tr hp ik ah in simp)
  qed
qed

lemma insert_inv:
  assumes inv: "tree_inv T t" and fu: "aheight t < fuel"
  shows "\<exists>T' t'. BPTree_insert fuel T k = Inr T' \<and> tree_inv T' t'
           \<and> set (lkeys t') = insert k (set (lkeys t)) \<and> capacity T' = capacity T
           \<and> aheight t' \<le> Suc (aheight t)
           \<and> (k \<in> set (lkeys t) \<longrightarrow> T' = T)"
proof -
  obtain T' t' r h' where s: "BPTree_insert fuel T k = Inr T'" "tree_inv T' t'"
      "set (lkeys t') = insert k (set (lkeys t))" "capacity T' = capacity T"
      "k \<in> set (lkeys t) \<longrightarrow> T' = T"
      "r = None \<longrightarrow> tree T' = tree T \<and> aheight t' = aheight t"
      "\<forall>pk pp. r = Some (pk, pp) \<longrightarrow>
                 heap T' = h' @ [BPTreeNode [pk] [tree T, pp] (capacity T)]
                 \<and> tree T' = length h' \<and> aheight t' = Suc (aheight t)"
    using insert_step[OF assms, of k] by blast
  have "aheight t' \<le> Suc (aheight t)"
  proof (cases r)
    case None
    then show ?thesis using s(6) by simp
  next
    case (Some p)
    then show ?thesis using s(7) by (cases p) simp
  qed
  then show ?thesis using s(1-5) by blast
qed

lemma insert_all_inv:
  assumes "tree_inv T t" and "aheight t + length ks < fuel"
  shows "\<exists>T' t'. insert_all fuel T ks = Inr T' \<and> tree_inv T' t'
           \<and> set (lkeys t') = set (lkeys t) \<union> set ks \<and> capacity T' = capacity T"
  using assms
proof (induction ks arbitrary: T t)
  case Nil
  then show ?case by auto
next
  case (Cons k ks)
  have "aheight t < fuel" using Cons.prems(2) by simp
  then obtain T1 t1 where 1: "BPTree_insert fuel T k = Inr T1" "tree_inv T1 t1"
      "set (lkeys t1) = insert k (set (lkeys t))" "capacity T1 = capacity T"
      "aheight t1 \<le> Suc (aheight t)"
    using insert_inv[OF Cons.prems(1), of fuel k] by blast
  have "aheight t1 + length ks < fuel" using 1(5) Cons.prems(2) by simp
  then obtain T' t' where 2: "insert_all fuel T1 ks = Inr T'" "tree_inv T' t'"
      "set (lkeys t') = set (lkeys t1) \<union> set ks" "capacity T' = capacity T1"
    using Cons.IH[OF 1(2)] by blast
  have "insert_all fuel T (k # ks) = Inr T'" using 1(1) 2(1) by simp
  moreover have "set (lkeys t') = set (lkeys t) \<union> set (k # ks)" using 1(3) 2(3) by auto
  ultimately show ?case using 2(2,4) 1(4) by auto
qed

lemma build_inv:
  assumes "1 \<le> cap" and "length ks < fuel"
  shows "\<exists>T t. build fuel cap ks = Inr T \<and> tree_inv T t \<and> set (lkeys t) = set ks
           \<and> capacity T = cap"
proof -
  let ?T0 = "\<lparr>heap = [BPTreeLeaf [] None cap], tree = 0, capacity = cap\<rparr> :: 'a BPTree"
  have b: "build fuel cap ks = insert_all fuel ?T0 ks"
    by (simp add: build_def BPTree_init_def alloc_def)
  have "aheight (ALeaf 0 ([] :: 'a list)) + length ks < fuel" using assms(2) by simp
  then show ?thesis
    using insert_all_inv[OF init_inv[OF assms(1)], of ks fuel] b by auto
qed

lemma route_unique:
  assumes o: "ord (ANode a ks ts)" and j: "j < length ts" and k: "k \<in> akeys (ts ! j)"
  shows "bisect_right ks k = j"
proof -
  have srt: "sorted_wrt (<) ks" and len: "length ts = Suc (length ks)"
    and B: "\<forall>j<length ts. \<forall>x\<in>akeys (ts ! j).
        (j < length ks \<longrightarrow> x < ks ! j) \<and> (0 < j \<longrightarrow> ks ! (j - 1) \<le> x)"
    using o by auto
  have kb: "j < length ks \<longrightarrow> k < ks ! j" "0 < j \<longrightarrow> ks ! (j - 1) \<le> k"
    using B j k by auto
  have 1: "\<forall>l<j. ks ! l \<le> k"
  proof (intro allI impI)
    fix l assume l: "l < j"
    then have "l \<le> j - 1" "j - 1 < length ks" using j len by auto
    then have "ks ! l \<le> ks ! (j - 1)" by (rule sorted_nth_le[OF srt])
    then show "ks ! l \<le> k" using kb(2) l by auto
  qed
  have 2: "\<forall>l. j \<le> l \<and> l < length ks \<longrightarrow> k < ks ! l"
  proof (intro allI impI)
    fix l assume l: "j \<le> l \<and> l < length ks"
    then have "ks ! j \<le> ks ! l" using sorted_nth_le[OF srt, of j l] by simp
    then show "k < ks ! l" using kb(1) l by auto
  qed
  have "j \<le> length ks" using j len by simp
  then show ?thesis using bisect_right_eqI[OF strict_sorted_imp_sorted[OF srt] _ 1 2] by simp
qed

lemma find_refines:
  assumes "repr cap h t nxt" and "ord t" and "bal n t" and "n < fuel"
  shows "find_key fuel h (root t) k = Inr (k \<in> set (lkeys t))"
  using assms
proof (induction t arbitrary: nxt n fuel)
  case (ALeaf a ks)
  obtain f where f: "fuel = Suc f" using ALeaf.prems(4) by (cases fuel) auto
  show ?case using ALeaf.prems(1) by (simp add: f)
next
  case (ANode a ks ts)
  define i where "i = bisect_right ks k"
  obtain f where f: "fuel = Suc f" using ANode.prems(4) by (cases fuel) auto
  obtain n' where n: "n = Suc n'" and bc: "\<forall>t\<in>set ts. bal n' t"
    using ANode.prems(3) by (cases n) auto
  note rb = route_bounds[OF ANode.prems(2) i_def]
  note d = repr_nodeD[OF ANode.prems(1)]
  have mem: "ts ! i \<in> set ts" using rb(1) by simp
  have oi: "ord (ts ! i)" using ANode.prems(2) mem by auto
  have "find_key fuel h a k = find_key f h (root (ts ! i)) k"
    using d(1) rb(1) by (simp add: f i_def[symmetric] nth_opt_map)
  also have "\<dots> = Inr (k \<in> set (lkeys (ts ! i)))"
    using ANode.IH[OF mem d(2)[OF rb(1)] oi, of n' f] bc mem ANode.prems(4) n f by simp
  finally have 1: "find_key fuel h a k = Inr (k \<in> set (lkeys (ts ! i)))" .
  have "k \<in> set (lkeys (ANode a ks ts)) \<longleftrightarrow> k \<in> set (lkeys (ts ! i))"
  proof
    assume "k \<in> set (lkeys (ANode a ks ts))"
    then obtain tj where "tj \<in> set ts" "k \<in> set (lkeys tj)" by auto
    then obtain j where j: "j < length ts" "k \<in> set (lkeys (ts ! j))"
      by (metis in_set_conv_nth)
    have "bisect_right ks k = j"
      using route_unique[OF ANode.prems(2) j(1) lkeys_in_akeys[OF j(2)]] .
    then show "k \<in> set (lkeys (ts ! i))" using j(2) by (simp add: i_def)
  next
    assume "k \<in> set (lkeys (ts ! i))"
    then show "k \<in> set (lkeys (ANode a ks ts))" using mem by auto
  qed
  then show ?case using 1 by simp
qed

lemma children_ok_Cons:
  "children_ok cap h (t # ts) nxt =
     (repr cap h t (if ts = [] then nxt else Some (first_leaf (hd ts))) \<and> children_ok cap h ts nxt)"
proof
  assume a: "children_ok cap h (t # ts) nxt"
  have 1: "repr cap h t (if ts = [] then nxt else Some (first_leaf (hd ts)))"
    using children_okD[OF a, of 0] by (cases ts) auto
  have 2: "children_ok cap h ts nxt"
    unfolding children_ok_def
  proof (intro allI impI)
    fix i assume "i < length ts"
    then show "repr cap h (ts ! i) (if Suc i < length ts then Some (first_leaf (ts ! Suc i)) else nxt)"
      using children_okD[OF a, of "Suc i"] by (auto split: if_splits)
  qed
  show "repr cap h t (if ts = [] then nxt else Some (first_leaf (hd ts))) \<and> children_ok cap h ts nxt"
    using 1 2 by simp
next
  assume a: "repr cap h t (if ts = [] then nxt else Some (first_leaf (hd ts))) \<and> children_ok cap h ts nxt"
  show "children_ok cap h (t # ts) nxt"
    unfolding children_ok_def
  proof (intro allI impI)
    fix i assume i: "i < length (t # ts)"
    show "repr cap h ((t # ts) ! i)
        (if Suc i < length (t # ts) then Some (first_leaf ((t # ts) ! Suc i)) else nxt)"
    proof (cases i)
      case 0
      then show ?thesis using a by (cases ts) auto
    next
      case (Suc j)
      then have "j < length ts" using i by simp
      then show ?thesis using children_okD[of cap h ts nxt j] a Suc by (auto split: if_splits)
    qed
  qed
qed

lemma leaves_facts:
  assumes "bal n t"
  shows "leaves t \<noteq> [] \<and> fst (hd (leaves t)) = first_leaf t"
  using assms
proof (induction t arbitrary: n)
  case (ALeaf a ks)
  then show ?case by simp
next
  case (ANode a ks ts)
  obtain m where m: "n = Suc m" "ts \<noteq> []" "\<forall>t\<in>set ts. bal m t"
    using ANode.prems by (cases n) auto
  obtain t0 r where ts: "ts = t0 # r" using m(2) by (cases ts) auto
  have "leaves t0 \<noteq> [] \<and> fst (hd (leaves t0)) = first_leaf t0"
    using ANode.IH[of t0 m] m(3) ts by simp
  then show ?case using ts by simp
qed

lemma concat_concat_map: "concat (concat (map g xs)) = concat (map (\<lambda>x. concat (g x)) xs)"
  by (induction xs) auto

lemma lkeys_leaves: "lkeys t = concat (map snd (leaves t))"
proof (induction t)
  case (ALeaf a ks)
  then show ?case by simp
next
  case (ANode a ks ts)
  have "map lkeys ts = map (\<lambda>t. concat (map snd (leaves t))) ts"
    using ANode.IH by simp
  then have "concat (map lkeys ts) = concat (map (\<lambda>t. concat (map snd (leaves t))) ts)"
    by (rule arg_cong)
  then show ?case by (simp add: map_concat concat_concat_map comp_def)
qed

lemma length_leaves: "length (leaves t) = aleaves t"
proof (induction t)
  case (ALeaf a ks)
  then show ?case by simp
next
  case (ANode a ks ts)
  have "map (\<lambda>t. length (leaves t)) ts = map aleaves ts" using ANode.IH by simp
  then have "sum_list (map (\<lambda>t. length (leaves t)) ts) = sum_list (map aleaves ts)"
    by (rule arg_cong)
  then show ?case by (simp add: length_concat comp_def)
qed

lemma chain_head:
  "chain cap h ((a, ks) # r) nxt \<Longrightarrow> \<exists>nx. lookup h a = Some (BPTreeLeaf ks nx cap)"
  by (cases r) auto

lemma chain_append:
  assumes "L1 \<noteq> []" and "chain cap h L1 (if L2 = [] then nxt else Some (fst (hd L2)))"
      and "chain cap h L2 nxt"
  shows "chain cap h (L1 @ L2) nxt"
  using assms
proof (induction cap h L1 "if L2 = [] then nxt else Some (fst (hd L2))" rule: chain.induct)
  case (1 cap h)
  then show ?case by simp
next
  case (2 cap h a ks)
  then show ?case by (cases L2) auto
next
  case (3 cap h a ks b kb r)
  then show ?case by simp
qed

lemma children_chain:
  assumes "children_ok cap h ts nxt"
      and "\<And>t nx. t \<in> set ts \<Longrightarrow> repr cap h t nx \<Longrightarrow> chain cap h (leaves t) nx"
      and "\<forall>t \<in> set ts. bal m t"
  shows "chain cap h (concat (map leaves ts)) nxt"
  using assms
proof (induction ts)
  case Nil
  then show ?case by simp
next
  case (Cons t ts)
  have r: "repr cap h t (if ts = [] then nxt else Some (first_leaf (hd ts)))"
    and c: "children_ok cap h ts nxt"
    using Cons.prems(1) by (simp_all add: children_ok_Cons)
  have bt: "bal m t" using Cons.prems(3) by simp
  have ne: "leaves t \<noteq> []" using leaves_facts[OF bt] by simp
  define L2 where "L2 = concat (map leaves ts)"
  have c2: "chain cap h L2 nxt"
    unfolding L2_def
  proof (rule Cons.IH[OF c])
    fix t' nx assume "t' \<in> set ts" and "repr cap h t' nx"
    then show "chain cap h (leaves t') nx" using Cons.prems(2)[of t' nx] by simp
  next
    show "\<forall>t \<in> set ts. bal m t" using Cons.prems(3) by simp
  qed
  have c1: "chain cap h (leaves t) (if ts = [] then nxt else Some (first_leaf (hd ts)))"
    using Cons.prems(2)[of t, OF _ r] by simp
  have e: "(if ts = [] then nxt else Some (first_leaf (hd ts)))
         = (if L2 = [] then nxt else Some (fst (hd L2)))"
  proof (cases ts)
    case Nil
    then show ?thesis by (simp add: L2_def)
  next
    case (Cons t0 r)
    have "bal m t0" using Cons.prems(3) Cons by simp
    then have "leaves t0 \<noteq> [] \<and> fst (hd (leaves t0)) = first_leaf t0" by (rule leaves_facts)
    then show ?thesis using Cons by (simp add: L2_def)
  qed
  have "chain cap h (leaves t @ L2) nxt"
    using chain_append[OF ne _ c2] c1 e by simp
  then show ?case by (simp add: L2_def)
qed

lemma repr_chain:
  assumes "repr cap h t nxt" and "bal n t"
  shows "chain cap h (leaves t) nxt"
  using assms
proof (induction t arbitrary: n nxt)
  case (ALeaf a ks)
  then show ?case by simp
next
  case (ANode a ks ts)
  obtain m where m: "n = Suc m" "ts \<noteq> []" "\<forall>t\<in>set ts. bal m t"
    using ANode.prems(2) by (cases n) auto
  have c: "children_ok cap h ts nxt" using ANode.prems(1) by (simp add: repr_node)
  have "chain cap h (concat (map leaves ts)) nxt"
  proof (rule children_chain[OF c _ m(3)])
    fix t nx assume t: "t \<in> set ts" and "repr cap h t nx"
    then show "chain cap h (leaves t) nx" using ANode.IH[of t nx m] m(3) by simp
  qed
  then show ?case by simp
qed

lemma keys_loop_chain:
  assumes "chain cap h ((a, ks) # r) None" and "length r < fuel"
  shows "keys_loop fuel h a acc = Inr (acc @ concat (map snd r))"
  using assms
proof (induction r arbitrary: a ks acc fuel)
  case Nil
  obtain f where f: "fuel = Suc f" using Nil.prems(2) by (cases fuel) auto
  have "lookup h a = Some (BPTreeLeaf ks None cap)" using Nil.prems(1) by simp
  then show ?case by (simp add: f)
next
  case (Cons p r)
  obtain b kb where p: "p = (b, kb)" by (cases p)
  obtain f where f: "fuel = Suc f" "length r < f" using Cons.prems(2) by (cases fuel) auto
  have la: "lookup h a = Some (BPTreeLeaf ks (Some b) cap)"
    and c: "chain cap h ((b, kb) # r) None"
    using Cons.prems(1) by (simp_all add: p)
  obtain nx where lb: "lookup h b = Some (BPTreeLeaf kb nx cap)"
    using chain_head[OF c] by blast
  have "keys_loop f h b (acc @ kb) = Inr ((acc @ kb) @ concat (map snd r))"
    by (rule Cons.IH[OF c f(2)])
  then show ?case by (simp add: f la lb p)
qed

lemma keys_descend:
  assumes "repr cap h t nxt" and "bal n t" and "n < fuel"
  shows "\<exists>ks0. hd (leaves t) = (first_leaf t, ks0) \<and>
           keys fuel h (root t) = keys_loop (fuel - n) h (first_leaf t) ks0"
  using assms
proof (induction t arbitrary: n nxt fuel)
  case (ALeaf a ks)
  obtain f where f: "fuel = Suc f" using ALeaf.prems(3) by (cases fuel) auto
  have n: "n = 0" using ALeaf.prems(2) by simp
  have "lookup h a = Some (BPTreeLeaf ks nxt cap)" using ALeaf.prems(1) by simp
  then show ?case by (simp add: f n)
next
  case (ANode a ks ts)
  obtain m where m: "n = Suc m" "ts \<noteq> []" "\<forall>t\<in>set ts. bal m t"
    using ANode.prems(2) by (cases n) auto
  obtain t0 r where ts: "ts = t0 # r" using m(2) by (cases ts) auto
  obtain f where f: "fuel = Suc f" "m < f" using ANode.prems(3) m(1) by (cases fuel) auto
  have la: "lookup h a = Some (BPTreeNode ks (map root ts) cap)"
    using ANode.prems(1) by (simp add: repr_node)
  have c: "children_ok cap h ts nxt" using ANode.prems(1) by (simp add: repr_node)
  have r0: "repr cap h t0 (if r = [] then nxt else Some (first_leaf (hd r)))"
    using c by (simp add: ts children_ok_Cons)
  have b0: "bal m t0" using m(3) ts by simp
  obtain ks0 where k0: "hd (leaves t0) = (first_leaf t0, ks0)"
      "keys f h (root t0) = keys_loop (f - m) h (first_leaf t0) ks0"
    using ANode.IH[of t0 _ m f, OF _ r0 b0 f(2)] ts by auto
  have ne: "leaves t0 \<noteq> []" using leaves_facts[OF b0] by simp
  have 1: "hd (leaves (ANode a ks ts)) = (first_leaf (ANode a ks ts), ks0)"
    using k0(1) ne by (simp add: ts)
  have 2: "keys fuel h (root (ANode a ks ts))
         = keys_loop (fuel - n) h (first_leaf (ANode a ks ts)) ks0"
    using k0(2) la by (simp add: f m(1) ts nth_opt_def)
  show ?case using 1 2 by blast
qed

lemma keys_refines:
  assumes "repr cap h t None" and "bal n t" and "n + aleaves t \<le> fuel"
  shows "keys fuel h (root t) = Inr (lkeys t)"
proof -
  have ne: "leaves t \<noteq> []" using leaves_facts[OF assms(2)] by simp
  then have al: "0 < aleaves t" using length_leaves[of t] by (cases "leaves t") auto
  have nf: "n < fuel" using assms(3) al by simp
  obtain ks0 where k0: "hd (leaves t) = (first_leaf t, ks0)"
      "keys fuel h (root t) = keys_loop (fuel - n) h (first_leaf t) ks0"
    using keys_descend[OF assms(1,2) nf] by blast
  obtain r where r: "leaves t = (first_leaf t, ks0) # r"
    using ne k0(1) by (cases "leaves t") auto
  have c: "chain cap h ((first_leaf t, ks0) # r) None"
    using repr_chain[OF assms(1,2)] r by simp
  have "length r < fuel - n"
    using assms(3) length_leaves[of t] r by simp
  then have "keys_loop (fuel - n) h (first_leaf t) ks0 = Inr (ks0 @ concat (map snd r))"
    by (rule keys_loop_chain[OF c])
  moreover have "lkeys t = ks0 @ concat (map snd r)"
    using lkeys_leaves[of t] r by simp
  ultimately show ?thesis using k0(2) by simp
qed

lemma length_addrs: "length (addrs t) = anodes t + aleaves t"
proof (induction t)
  case (ALeaf a ks)
  then show ?case by simp
next
  case (ANode a ks ts)
  have "map (\<lambda>t. length (addrs t)) ts = map (\<lambda>t. anodes t + aleaves t) ts"
    using ANode.IH by simp
  then have "sum_list (map (\<lambda>t. length (addrs t)) ts)
           = sum_list (map (\<lambda>t. anodes t + aleaves t) ts)"
    by (rule arg_cong)
  then show ?case by (simp add: length_concat comp_def sum_list_addf)
qed

lemma bal_le_anodes: "bal n t \<Longrightarrow> n \<le> anodes t"
proof (induction t arbitrary: n)
  case (ALeaf a ks)
  then show ?case by simp
next
  case (ANode a ks ts)
  obtain m where m: "n = Suc m" "ts \<noteq> []" "\<forall>t\<in>set ts. bal m t"
    using ANode.prems by (cases n) auto
  obtain t0 r where ts: "ts = t0 # r" using m(2) by (cases ts) auto
  have "m \<le> anodes t0" using ANode.IH[of t0 m] m(3) ts by simp
  then show ?case by (simp add: m(1) ts)
qed

lemma aleaves_pos: "bal n t \<Longrightarrow> 0 < aleaves t"
  using leaves_facts[of n t] length_leaves[of t] by (cases "leaves t") auto

lemma inv_size:
  assumes "tree_inv T t"
  shows "aheight t + aleaves t \<le> length (heap T)" and "aheight t < length (heap T)"
proof -
  have b: "bal (aheight t) t" and d: "distinct (addrs t)"
    and s: "set (addrs t) = {..<length (heap T)}"
    using assms by (simp_all add: tree_inv_def)
  have "length (addrs t) = card (set (addrs t))" using d by (simp add: distinct_card)
  then have l: "length (addrs t) = length (heap T)" using s by simp
  have "aheight t \<le> anodes t" using bal_le_anodes[OF b] .
  then show 1: "aheight t + aleaves t \<le> length (heap T)"
    using l length_addrs[of t] by simp
  show "aheight t < length (heap T)" using 1 aleaves_pos[OF b] by simp
qed


lemma child_repr:
  assumes "repr cap h (ANode a ks ts) nxt" and "t \<in> set ts"
  shows "\<exists>nx. repr cap h t nx"
proof -
  obtain i where i: "i < length ts" "ts ! i = t"
    using assms(2) by (auto simp: in_set_conv_nth)
  show ?thesis using repr_nodeD(2)[OF assms(1) i(1)] i(2) by auto
qed




lemma height_refines:
  assumes "repr cap h t nxt" and "bal n t" and "n < fuel"
  shows "height fuel h (root t) = Inr n"
  using assms
proof (induction t arbitrary: nxt n fuel)
  case (ALeaf a ks)
  obtain f where f: "fuel = Suc f" using ALeaf.prems(3) by (cases fuel) auto
  have "lookup h a = Some (BPTreeLeaf ks nxt cap)" using ALeaf.prems(1) by simp
  then show ?case using ALeaf.prems(2) by (simp add: f)
next
  case (ANode a ks ts)
  obtain m where m: "n = Suc m" "ts \<noteq> []" "\<forall>t\<in>set ts. bal m t"
    using ANode.prems(2) by (cases n) auto
  obtain t0 r where ts: "ts = t0 # r" using m(2) by (cases ts) auto
  obtain f where f: "fuel = Suc f" "m < f" using ANode.prems(3) m(1) by (cases fuel) auto
  have la: "lookup h a = Some (BPTreeNode ks (map root ts) cap)"
    using ANode.prems(1) by (simp add: repr_node)
  have t0: "t0 \<in> set ts" using ts by simp
  obtain nx where "repr cap h t0 nx" using child_repr[OF ANode.prems(1) t0] by blast
  then have "height f h (root t0) = Inr m"
    using ANode.IH[OF t0 _ _ f(2)] m(3) t0 by blast
  then show ?case by (simp add: f la ts m(1) nth_opt_def)
qed


lemma repr_capok_obj:
  assumes "repr cap h t nxt" and "capok cap t" and "b \<in> set (addrs t)"
  shows "b < length h \<and> int (length (obj_keys (h ! b))) \<le> cap"
  using assms
proof (induction t arbitrary: nxt)
  case (ALeaf a ks)
  then show ?case by (auto simp: lookup_def split: if_splits)
next
  case (ANode a ks ts)
  have la: "lookup h a = Some (BPTreeNode ks (map root ts) cap)"
    using ANode.prems(1) by (simp add: repr_node)
  consider "b = a" | t where "t \<in> set ts" "b \<in> set (addrs t)"
    using ANode.prems(3) by auto
  then show ?case
  proof cases
    case 1
    then show ?thesis using la ANode.prems(2) by (auto simp: lookup_def split: if_splits)
  next
    case 2
    obtain nx where "repr cap h t nx" using child_repr[OF ANode.prems(1) 2(1)] by blast
    then show ?thesis using ANode.IH[OF 2(1) _ _ 2(2)] ANode.prems(2) 2(1) by auto
  qed
qed

lemma inv_capacity:
  assumes "tree_inv T t" and "a < length (heap T)"
  shows "int (length (obj_keys (heap T ! a))) \<le> capacity T"
proof -
  have "a \<in> set (addrs t)" using assms by (simp add: tree_inv_def)
  then show ?thesis
    using repr_capok_obj[of "capacity T" "heap T" t None a] assms(1)
    by (simp add: tree_inv_def)
qed

lemma concat_results_map:
  "(\<And>x. x \<in> set xs \<Longrightarrow> F x = Inr (g x)) \<Longrightarrow>
     concat_results (map F xs) = Inr (concat (map g xs))"
  by (induction xs) auto

lemma concat_replicate:
  "concat (map (\<lambda>t. replicate (f t) (m :: nat)) ts) = replicate (sum_list (map f ts)) m"
  by (induction ts) (auto simp: replicate_add)

lemma leaf_depths_refines:
  assumes "repr cap h t nxt" and "bal n t" and "n < fuel"
  shows "leaf_depths fuel h (root t) = Inr (replicate (aleaves t) n)"
  using assms
proof (induction t arbitrary: nxt n fuel)
  case (ALeaf a ks)
  obtain f where f: "fuel = Suc f" using ALeaf.prems(3) by (cases fuel) auto
  have "lookup h a = Some (BPTreeLeaf ks nxt cap)" using ALeaf.prems(1) by simp
  then show ?case using ALeaf.prems(2) by (simp add: f)
next
  case (ANode a ks ts)
  obtain m where m: "n = Suc m" "ts \<noteq> []" "\<forall>t\<in>set ts. bal m t"
    using ANode.prems(2) by (cases n) auto
  obtain f where f: "fuel = Suc f" "m < f" using ANode.prems(3) m(1) by (cases fuel) auto
  have la: "lookup h a = Some (BPTreeNode ks (map root ts) cap)"
    using ANode.prems(1) by (simp add: repr_node)
  have "concat_results (map (\<lambda>t. leaf_depths f h (root t)) ts)
      = Inr (concat (map (\<lambda>t. replicate (aleaves t) m) ts))"
  proof (rule concat_results_map)
    fix t assume t: "t \<in> set ts"
    obtain nx where "repr cap h t nx" using child_repr[OF ANode.prems(1) t] by blast
    then show "leaf_depths f h (root t) = Inr (replicate (aleaves t) m)"
      using ANode.IH[OF t _ _ f(2)] m(3) t by blast
  qed
  then show ?case by (simp add: f la comp_def concat_replicate m(1))
qed





section \<open>The two splits\<close>

text \<open>
  Claim C3. A leaf insert that leaves more than \<open>capacity\<close> keys splits the leaf at
  \<open>split_index = (capacity + 1) // 2\<close>: a new leaf, at the next free address, takes
  \<open>keys[split_index:]\<close> and the leaf's current \<open>_next\<close>; the leaf keeps
  \<open>keys[:split_index]\<close> and points to the new leaf; the promoted key is the first key
  of the new leaf, which is not empty, and no key is dropped from either side.
\<close>

theorem leaf_split:
  fixes ks1 :: "'k::linorder list" and si :: int
  assumes "lookup h self = Some (BPTreeLeaf ks nx cap)"
      and "ks1 = leaf_put ks key" and "si = (cap + 1) div 2"
      and "int (length ks1) > cap"
  shows "insert_key (Suc n) h self key =
           Inr (Some (hd (py_slice_from ks1 si), length h),
                (h @ [BPTreeLeaf (py_slice_from ks1 si) nx cap])
                  [self := BPTreeLeaf (py_slice_to ks1 si) (Some (length h)) cap])
         \<and> py_slice_from ks1 si \<noteq> []
         \<and> py_slice_to ks1 si @ py_slice_from ks1 si = ks1"
proof -
  have ne: "ks1 \<noteq> []" using assms(2) leaf_put_nonempty by simp
  then have "0 < int (length ks1)" by simp
  then have "si < int (length ks1)" using assms(3,4) by linarith
  then have ne2: "py_slice_from ks1 si \<noteq> []" using ne py_slice_from_nonempty by blast
  then have g: "py_get (py_slice_from ks1 si) 0 = Some (hd (py_slice_from ks1 si))"
    by (cases "py_slice_from ks1 si") (auto simp: py_get_def)
  show ?thesis
    using assms ne2 g by (simp add: BPTreeLeaf_insert_def alloc_def py_slice_append Let_def)
qed

lemma leaf_put_example: "leaf_put [3, 8, 15 :: int] 32 = [3, 8, 15, 32]"
  by code_simp

theorem leaf_split_witness:
  "insert_key (Suc 0) [BPTreeLeaf [3, 8, 15 :: int] None 3] 0 32 =
     Inr (Some (15, 1), [BPTreeLeaf [3, 8] (Some 1) 3, BPTreeLeaf [15, 32] None 3])"
  using leaf_split [of "[BPTreeLeaf [3, 8, 15 :: int] None 3]" 0 "[3, 8, 15]" None 3
      "[3, 8, 15, 32]" 32 2 0]
  by (simp add: lookup_def leaf_put_example py_slice_from_def py_slice_to_def)

text \<open>
  Claim C4, as the code has it. \<open>insert_here\<close> takes the key at \<open>split_index\<close> and
  removes its first occurrence with \<open>list.remove\<close>, so the split is the one the claim
  describes when the keys are pairwise distinct after the insertion and the capacity is
  not negative: then, when the insertion leaves more than \<open>capacity\<close> keys, the node
  splits at \<open>split_index = (capacity + 1) // 2\<close>; the promoted key is the key at
  \<open>split_index\<close> and is in neither half afterwards; a new node, at the next free
  address, takes \<open>keys[split_index+1:]\<close> and \<open>children[split_index+1:]\<close> of the
  lists before the removal; the node keeps \<open>keys[:split_index]\<close> and
  \<open>children[:split_index+1]\<close>.
\<close>

theorem node_split:
  fixes ks1 :: "'k::linorder list"
  assumes "0 \<le> cap" and "ks1 = list_insert position key ks"
      and "ps1 = list_insert (Suc position) pointer ps"
      and "si = nat ((cap + 1) div 2)" and "distinct ks1"
      and "int (length ks1) > cap"
  shows "BPTreeNode_insert_here h self ks ps cap position key pointer =
           Inr (Some (ks1 ! si, length h),
                (h @ [BPTreeNode (drop (Suc si) ks1) (drop (Suc si) ps1) cap])
                  [self := BPTreeNode (take si ks1) (take (Suc si) ps1) cap])
         \<and> si < length ks1
         \<and> ks1 ! si \<notin> set (take si ks1) \<and> ks1 ! si \<notin> set (drop (Suc si) ks1)"
proof -
  have "int si = (cap + 1) div 2" using assms(1,4) by simp
  then have lt: "si < length ks1" using assms(1,6) by linarith
  show ?thesis
    using insert_here_eq[OF assms(1-5), of h self] assms(6) lt
      nth_notin_take_drop[OF assms(5) lt]
    by simp
qed

theorem node_split_witness:
  "BPTreeNode_insert_here
      [BPTreeNode [10, 20, 30 :: int] [1, 2, 3, 4] 3, BPTreeLeaf [5] (Some 2) 3,
       BPTreeLeaf [10, 12] (Some 5) 3, BPTreeLeaf [20, 25] (Some 4) 3,
       BPTreeLeaf [30, 31] None 3, BPTreeLeaf [15, 16] (Some 3) 3]
      0 [10, 20, 30] [1, 2, 3, 4] 3 1 15 5 =
     Inr (Some (20, 6),
      [BPTreeNode [10, 15] [1, 2, 5] 3, BPTreeLeaf [5] (Some 2) 3,
       BPTreeLeaf [10, 12] (Some 5) 3, BPTreeLeaf [20, 25] (Some 4) 3,
       BPTreeLeaf [30, 31] None 3, BPTreeLeaf [15, 16] (Some 3) 3,
       BPTreeNode [30] [3, 4] 3])"
proof -
  have a: "[10, 15, 20, 30 :: int] = list_insert 1 15 [10, 20, 30]"
    by (simp add: list_insert_def)
  have b: "[1, 2, 5, 3, 4 :: nat] = list_insert (Suc 1) 5 [1, 2, 3, 4]"
    by (simp add: list_insert_def)
  have c: "(2 :: nat) = nat ((3 + 1) div 2)" by simp
  have d: "distinct [10, 15, 20, 30 :: int]" by simp
  have e: "int (length [10, 15, 20, 30 :: int]) > 3" by simp
  have f: "(0 :: int) \<le> 3" by simp
  note n = node_split [OF f a b c d e,
      of "[BPTreeNode [10, 20, 30 :: int] [1, 2, 3, 4] 3, BPTreeLeaf [5] (Some 2) 3,
       BPTreeLeaf [10, 12] (Some 5) 3, BPTreeLeaf [20, 25] (Some 4) 3,
       BPTreeLeaf [30, 31] None 3, BPTreeLeaf [15, 16] (Some 3) 3]" 0]
  have g: "[10, 15, 20, 30 :: int] ! 2 = 20" by simp
  have t1: "take 2 [10, 15, 20, 30 :: int] = [10, 15]" by simp
  have t2: "drop (Suc 2) [10, 15, 20, 30 :: int] = [30]" by simp
  have t3: "take (Suc 2) [1, 2, 5, 3, 4 :: nat] = [1, 2, 5]" by simp
  have t4: "drop (Suc 2) [1, 2, 5, 3, 4 :: nat] = [3, 4]" by simp
  from n show ?thesis unfolding g t1 t2 t3 t4 by simp
qed

text \<open>
  Without those two conditions the claim fails. Inserting 20 into a node of capacity 3
  that already holds the separators 10, 20, 30 promotes 20 and leaves 20 in the node;
  with capacity -10 the key at \<open>split_index\<close> does not exist and \<open>IndexError\<close> is
  raised.
\<close>

theorem node_split_duplicate_key:
  "BPTreeNode_insert_here
      [BPTreeNode [10, 20, 30 :: int] [1, 2, 3, 4] 3, BPTreeLeaf [5] (Some 2) 3,
       BPTreeLeaf [10, 12] (Some 3) 3, BPTreeLeaf [20, 25] (Some 4) 3,
       BPTreeLeaf [30, 31] None 3, BPTreeLeaf [15, 16] None 3]
      0 [10, 20, 30] [1, 2, 3, 4] 3 0 20 5 =
     Inr (Some (20, 6),
      [BPTreeNode [10, 20] [1, 5, 2] 3, BPTreeLeaf [5] (Some 2) 3,
       BPTreeLeaf [10, 12] (Some 3) 3, BPTreeLeaf [20, 25] (Some 4) 3,
       BPTreeLeaf [30, 31] None 3, BPTreeLeaf [15, 16] None 3,
       BPTreeNode [30] [3, 4] 3])
   \<and> BPTreeNode_insert_here
      [BPTreeNode [10 :: int] [1, 2] (- 10), BPTreeLeaf [5] (Some 2) (- 10),
       BPTreeLeaf [10] None (- 10), BPTreeLeaf [7] None (- 10)]
      0 [10] [1, 2] (- 10) 0 7 3 = Inl IndexError"
  by code_simp

text \<open>
  Claim C7, as the code has it. The constructor checks nothing: for every capacity,
  positive or not, it returns a tree whose root is an empty leaf of that capacity.
\<close>

theorem init_never_fails:
  "BPTree_init cap = Inr \<lparr>heap = [BPTreeLeaf [] None cap], tree = 0, capacity = cap\<rparr>"
  by (simp add: BPTree_init_def alloc_def)

theorem init_zero_capacity:
  "(BPTree_init 0 :: error + int BPTree)
     = Inr \<lparr>heap = [BPTreeLeaf [] None 0], tree = 0, capacity = 0\<rparr>"
  by (simp add: BPTree_init_def alloc_def)

section \<open>Trees built by inserts\<close>

text \<open>
  The example used below: a tree of capacity 2 after the inserts 3, 1, 2.
\<close>

lemma build_example:
  "build 4 2 [3, 1, 2 :: int] =
     Inr \<lparr>heap = [BPTreeLeaf [1 :: int] (Some 1) 2, BPTreeLeaf [2, 3] None 2, BPTreeNode [2] [0, 1] 2],
          tree = 2, capacity = 2\<rparr>"
  by code_simp

text \<open>
  Claim C1. In a tree constructed with capacity at least 1, after any finite sequence of
  inserts (given enough fuel for the descents: more than the number of inserts for the
  inserts, at least the number of objects in the store for the reads), \<open>find(k)\<close> returns
  true for every inserted key and false for every other key, and \<open>keys()\<close> returns a
  list whose length is the number of distinct inserted keys.
\<close>

theorem round_trip:
  fixes ks :: "'k::linorder list"
  assumes "1 \<le> cap" and "length ks < fuel"
  shows "\<exists>T. build fuel cap ks = Inr T \<and>
           (\<forall>n k. length (heap T) \<le> n \<longrightarrow> BPTree_find n T k = Inr (k \<in> set ks)) \<and>
           (\<forall>n. length (heap T) \<le> n \<longrightarrow>
              (\<exists>out. BPTree_keys n T = Inr out \<and> length out = card (set ks)))"
proof -
  obtain T t where b: "build fuel cap ks = Inr T" and inv: "tree_inv T t"
      and s: "set (lkeys t) = set ks"
    using build_inv[OF assms] by blast
  have R: "repr (capacity T) (heap T) t None" and rt: "root t = tree T" and O: "ord t"
    and B: "bal (aheight t) t"
    using inv by (simp_all add: tree_inv_def)
  note sz = inv_size[OF inv]
  have f: "BPTree_find n T k = Inr (k \<in> set ks)" if "length (heap T) \<le> n" for n k
  proof -
    have "aheight t < n" using sz(2) that by simp
    then show ?thesis
      using find_refines[OF R O B, of n k] rt s by (simp add: BPTree_find_def)
  qed
  have "distinct (lkeys t)" using ord_lkeys_sorted[OF O] by (simp add: strict_sorted_iff)
  then have "card (set (lkeys t)) = length (lkeys t)" by (rule distinct_card)
  then have l: "length (lkeys t) = card (set ks)" using s by simp
  have ky: "\<exists>out. BPTree_keys n T = Inr out \<and> length out = card (set ks)"
    if "length (heap T) \<le> n" for n
  proof -
    have "aheight t + aleaves t \<le> n" using sz(1) that by simp
    then have "BPTree_keys n T = Inr (lkeys t)"
      using keys_refines[OF R B, of n] rt by (simp add: BPTree_keys_def)
    then show ?thesis using l by simp
  qed
  show ?thesis using b f ky by blast
qed

theorem round_trip_witness:
  "build 4 2 [3, 1, 2 :: int] =
     Inr \<lparr>heap = [BPTreeLeaf [1 :: int] (Some 1) 2, BPTreeLeaf [2, 3] None 2, BPTreeNode [2] [0, 1] 2],
          tree = 2, capacity = 2\<rparr>
   \<and> BPTree_find 3
       \<lparr>heap = [BPTreeLeaf [1 :: int] (Some 1) 2, BPTreeLeaf [2, 3] None 2, BPTreeNode [2] [0, 1] 2],
        tree = 2, capacity = 2\<rparr> 3 = Inr True
   \<and> BPTree_find 3
       \<lparr>heap = [BPTreeLeaf [1 :: int] (Some 1) 2, BPTreeLeaf [2, 3] None 2, BPTreeNode [2] [0, 1] 2],
        tree = 2, capacity = 2\<rparr> 4 = Inr False
   \<and> (\<exists>out. BPTree_keys 3
       \<lparr>heap = [BPTreeLeaf [1 :: int] (Some 1) 2, BPTreeLeaf [2, 3] None 2, BPTreeNode [2] [0, 1] 2],
        tree = 2, capacity = 2\<rparr> = Inr out \<and> length out = 3)"
proof -
  define T0 :: "int BPTree" where "T0 =
     \<lparr>heap = [BPTreeLeaf [1 :: int] (Some 1) 2, BPTreeLeaf [2, 3] None 2, BPTreeNode [2] [0, 1] 2],
      tree = 2, capacity = 2\<rparr>"
  have b: "build 4 2 [3, 1, 2 :: int] = Inr T0" unfolding T0_def by (rule build_example)
  have h1: "(1 :: int) \<le> 2" by simp
  have h2: "length [3, 1, 2 :: int] < 4" by simp
  obtain T where T: "build 4 2 [3, 1, 2 :: int] = Inr T"
      and f: "\<And>n k. length (heap T) \<le> n \<Longrightarrow> BPTree_find n T k = Inr (k \<in> set [3, 1, 2])"
      and k: "\<And>n. length (heap T) \<le> n \<Longrightarrow>
                \<exists>out. BPTree_keys n T = Inr out \<and> length out = card (set [3, 1, 2 :: int])"
    using round_trip [OF h1 h2] by blast
  have e: "T = T0" using b T by simp
  have l: "length (heap T0) \<le> 3" by (simp add: T0_def)
  have c: "card (set [3, 1, 2 :: int]) = 3" by simp
  have 1: "BPTree_find 3 T0 3 = Inr True" using f[of 3 3] l e by simp
  have 2: "BPTree_find 3 T0 4 = Inr False" using f[of 3 4] l e by simp
  have 3: "\<exists>out. BPTree_keys 3 T0 = Inr out \<and> length out = 3"
    using k[of 3, unfolded c e, OF l] .
  show ?thesis using b 1 2 3 unfolding T0_def by blast
qed

text \<open>
  Claim C2. In a tree constructed with capacity at least 1, after any sequence of inserts
  \<open>keys()\<close> returns a strictly increasing list, without duplicates.
\<close>

theorem keys_strictly_increasing:
  fixes ks :: "'k::linorder list"
  assumes "1 \<le> cap" and "length ks < fuel"
  shows "\<exists>T out. build fuel cap ks = Inr T \<and>
           (\<forall>n. length (heap T) \<le> n \<longrightarrow> BPTree_keys n T = Inr out) \<and>
           sorted_wrt (<) out \<and> distinct out"
proof -
  obtain T t where b: "build fuel cap ks = Inr T" and inv: "tree_inv T t"
    using build_inv[OF assms] by blast
  have R: "repr (capacity T) (heap T) t None" and rt: "root t = tree T" and O: "ord t"
    and B: "bal (aheight t) t"
    using inv by (simp_all add: tree_inv_def)
  note sz = inv_size[OF inv]
  have s: "sorted_wrt (<) (lkeys t)" using ord_lkeys_sorted[OF O] .
  then have d: "distinct (lkeys t)" by (simp add: strict_sorted_iff)
  have ky: "BPTree_keys n T = Inr (lkeys t)" if "length (heap T) \<le> n" for n
  proof -
    have "aheight t + aleaves t \<le> n" using sz(1) that by simp
    then show ?thesis
      using keys_refines[OF R B, of n] rt by (simp add: BPTree_keys_def)
  qed
  show ?thesis using b ky s d by blast
qed

theorem keys_strictly_increasing_witness:
  "build 4 2 [3, 1, 2 :: int] =
     Inr \<lparr>heap = [BPTreeLeaf [1 :: int] (Some 1) 2, BPTreeLeaf [2, 3] None 2, BPTreeNode [2] [0, 1] 2],
          tree = 2, capacity = 2\<rparr>
   \<and> BPTree_keys 3
       \<lparr>heap = [BPTreeLeaf [1 :: int] (Some 1) 2, BPTreeLeaf [2, 3] None 2, BPTreeNode [2] [0, 1] 2],
        tree = 2, capacity = 2\<rparr> = Inr [1, 2, 3 :: int]
   \<and> sorted_wrt (<) [1, 2, 3 :: int] \<and> distinct [1, 2, 3 :: int]"
proof -
  define T0 :: "int BPTree" where "T0 =
     \<lparr>heap = [BPTreeLeaf [1 :: int] (Some 1) 2, BPTreeLeaf [2, 3] None 2, BPTreeNode [2] [0, 1] 2],
      tree = 2, capacity = 2\<rparr>"
  have b: "build 4 2 [3, 1, 2 :: int] = Inr T0" unfolding T0_def by (rule build_example)
  have h1: "(1 :: int) \<le> 2" by simp
  have h2: "length [3, 1, 2 :: int] < 4" by simp
  obtain T out where T: "build 4 2 [3, 1, 2 :: int] = Inr T"
      and k: "\<And>n. length (heap T) \<le> n \<Longrightarrow> BPTree_keys n T = Inr out"
      and s: "sorted_wrt (<) out" "distinct out"
    using keys_strictly_increasing [OF h1 h2] by blast
  have e: "T = T0" using b T by simp
  have l: "length (heap T0) \<le> 3" by (simp add: T0_def)
  have v: "BPTree_keys 3 T0 = Inr [1, 2, 3]" unfolding T0_def by code_simp
  have o: "out = [1, 2, 3]" using k[of 3] l e v by simp
  show ?thesis using b v s o unfolding T0_def by blast
qed

text \<open>
  Claim C6. In a tree constructed with capacity at least 1, after every insert of any
  sequence of inserts, no object of the store, leaf or internal node, holds more than
  \<open>capacity\<close> keys.
\<close>

theorem capacity_invariant:
  fixes ks :: "'k::linorder list"
  assumes "1 \<le> cap" and "length ks < fuel"
  shows "\<exists>T. build fuel cap ks = Inr T \<and>
           (\<forall>a < length (heap T). int (length (obj_keys (heap T ! a))) \<le> cap)"
proof -
  obtain T t where b: "build fuel cap ks = Inr T" and inv: "tree_inv T t"
      and c: "capacity T = cap"
    using build_inv[OF assms] by blast
  have "\<forall>a < length (heap T). int (length (obj_keys (heap T ! a))) \<le> cap"
    using inv_capacity[OF inv] c by simp
  then show ?thesis using b by blast
qed

theorem capacity_invariant_witness:
  "build 4 2 [3, 1, 2 :: int] =
     Inr \<lparr>heap = [BPTreeLeaf [1 :: int] (Some 1) 2, BPTreeLeaf [2, 3] None 2, BPTreeNode [2] [0, 1] 2],
          tree = 2, capacity = 2\<rparr>
   \<and> int (length (obj_keys (BPTreeLeaf [2, 3 :: int] None 2))) \<le> 2"
proof -
  define T0 :: "int BPTree" where "T0 =
     \<lparr>heap = [BPTreeLeaf [1 :: int] (Some 1) 2, BPTreeLeaf [2, 3] None 2, BPTreeNode [2] [0, 1] 2],
      tree = 2, capacity = 2\<rparr>"
  have b: "build 4 2 [3, 1, 2 :: int] = Inr T0" unfolding T0_def by (rule build_example)
  have h1: "(1 :: int) \<le> 2" by simp
  have h2: "length [3, 1, 2 :: int] < 4" by simp
  obtain T where T: "build 4 2 [3, 1, 2 :: int] = Inr T"
      and k: "\<And>a. a < length (heap T) \<Longrightarrow> int (length (obj_keys (heap T ! a))) \<le> 2"
    using capacity_invariant [OF h1 h2] by blast
  have e: "T = T0" using b T by simp
  have "int (length (obj_keys (heap T0 ! 1))) \<le> 2" using k[of 1] e by (simp add: T0_def)
  then have "int (length (obj_keys (BPTreeLeaf [2, 3 :: int] None 2))) \<le> 2"
    by (simp add: T0_def)
  then show ?thesis using b unfolding T0_def by blast
qed

text \<open>
  Claim C5, as the code has it. In a tree constructed with capacity at least 1,
  inserting a key that was inserted before changes nothing: the insert returns the very
  state it was given, store and root, so \<open>keys()\<close> and \<open>stats()\<close> are the same after
  inserting a key twice as after inserting it once.
\<close>

theorem duplicate_insert:
  fixes ks :: "'k::linorder list"
  assumes "1 \<le> cap" and "length ks < fuel" and "k \<in> set ks"
  shows "\<exists>T. build fuel cap ks = Inr T \<and>
           (\<forall>n. length (heap T) \<le> n \<longrightarrow> BPTree_insert n T k = Inr T)"
proof -
  obtain T t where b: "build fuel cap ks = Inr T" and inv: "tree_inv T t"
      and s: "set (lkeys t) = set ks"
    using build_inv[OF assms(1,2)] by blast
  note sz = inv_size[OF inv]
  have "BPTree_insert n T k = Inr T" if "length (heap T) \<le> n" for n
  proof -
    have "aheight t < n" using sz(2) that by simp
    then obtain T' where "BPTree_insert n T k = Inr T'" "k \<in> set (lkeys t) \<longrightarrow> T' = T"
      using insert_inv[OF inv, of n k] by blast
    then show ?thesis using s assms(3) by simp
  qed
  then show ?thesis using b by blast
qed

theorem duplicate_insert_witness:
  "build 4 2 [3, 1, 2 :: int] =
     Inr \<lparr>heap = [BPTreeLeaf [1 :: int] (Some 1) 2, BPTreeLeaf [2, 3] None 2, BPTreeNode [2] [0, 1] 2],
          tree = 2, capacity = 2\<rparr>
   \<and> BPTree_insert 3
       \<lparr>heap = [BPTreeLeaf [1 :: int] (Some 1) 2, BPTreeLeaf [2, 3] None 2, BPTreeNode [2] [0, 1] 2],
        tree = 2, capacity = 2\<rparr> 3
     = Inr \<lparr>heap = [BPTreeLeaf [1 :: int] (Some 1) 2, BPTreeLeaf [2, 3] None 2, BPTreeNode [2] [0, 1] 2],
          tree = 2, capacity = 2\<rparr>"
proof -
  define T0 :: "int BPTree" where "T0 =
     \<lparr>heap = [BPTreeLeaf [1 :: int] (Some 1) 2, BPTreeLeaf [2, 3] None 2, BPTreeNode [2] [0, 1] 2],
      tree = 2, capacity = 2\<rparr>"
  have b: "build 4 2 [3, 1, 2 :: int] = Inr T0" unfolding T0_def by (rule build_example)
  have h1: "(1 :: int) \<le> 2" by simp
  have h2: "length [3, 1, 2 :: int] < 4" by simp
  have h3: "(3 :: int) \<in> set [3, 1, 2]" by simp
  obtain T where T: "build 4 2 [3, 1, 2 :: int] = Inr T"
      and k: "\<And>n. length (heap T) \<le> n \<Longrightarrow> BPTree_insert n T 3 = Inr T"
    using duplicate_insert [OF h1 h2 h3] by blast
  have e: "T = T0" using b T by simp
  have l: "length (heap T0) \<le> 3" by (simp add: T0_def)
  have "BPTree_insert 3 T0 3 = Inr T0" using k[of 3] l e by simp
  then show ?thesis using b unfolding T0_def by blast
qed

text \<open>
  With capacity 0, which the constructor accepts, the claim fails: after one insert of 1
  the key sits in a leaf that is over capacity whenever it is not empty, so the second
  insert of 1 splits that leaf again; the store grows by three objects and \<open>stats()\<close>
  changes from \<open>(2, 1, 2, 1)\<close> to \<open>(3, 3, 3, 1)\<close>.
\<close>

theorem duplicate_insert_capacity_zero:
  "build 2 0 [1 :: int] =
     Inr \<lparr>heap = [BPTreeLeaf [] (Some 1) 0, BPTreeLeaf [1 :: int] None 0, BPTreeNode [1] [0, 1] 0],
          tree = 2, capacity = 0\<rparr>
   \<and> BPTree_insert 3
       \<lparr>heap = [BPTreeLeaf [] (Some 1) 0, BPTreeLeaf [1 :: int] None 0, BPTreeNode [1] [0, 1] 0],
        tree = 2, capacity = 0\<rparr> 1
     = Inr \<lparr>heap = [BPTreeLeaf [] (Some 1) 0, BPTreeLeaf [] (Some 3) 0, BPTreeNode [] [0] 0,
                   BPTreeLeaf [1 :: int] None 0, BPTreeNode [1] [3, 1] 0, BPTreeNode [1] [2, 4] 0],
          tree = 5, capacity = 0\<rparr>
   \<and> BPTree_stats 3
       \<lparr>heap = [BPTreeLeaf [] (Some 1) 0, BPTreeLeaf [1 :: int] None 0, BPTreeNode [1] [0, 1] 0],
        tree = 2, capacity = 0\<rparr> = Inr (2, 1, 2, 1)
   \<and> BPTree_stats 3
       \<lparr>heap = [BPTreeLeaf [] (Some 1) 0, BPTreeLeaf [] (Some 3) 0, BPTreeNode [] [0] 0,
                BPTreeLeaf [1 :: int] None 0, BPTreeNode [1] [3, 1] 0, BPTreeNode [1] [2, 4] 0],
        tree = 5, capacity = 0\<rparr> = Inr (3, 3, 3, 1)"
  by code_simp



text \<open>
  Claim C8. In a tree constructed with capacity at least 1, after any sequence of
  inserts, every leaf is at the same depth \<open>d\<close> below the root and \<open>height()\<close> is
  \<open>d + 1\<close>. On the next insert, if the root reports no promotion then the root and the
  height stay; if it reports the promotion of \<open>pk\<close> with the sibling \<open>pp\<close> then the
  new root is a new node with the only key \<open>pk\<close> and the two children old root and
  \<open>pp\<close>, and the height is one more.
\<close>

theorem balanced_growth:
  fixes ks :: "'k::linorder list"
  assumes "1 \<le> cap" and "length ks < fuel"
  shows "\<exists>T d. build fuel cap ks = Inr T \<and>
     (\<forall>n. length (heap T) \<le> n \<longrightarrow>
        (\<exists>ds. leaf_depths n (heap T) (tree T) = Inr ds \<and> ds \<noteq> [] \<and> (\<forall>x \<in> set ds. x = d))
        \<and> BPTree_height n T = Inr (d + 1)) \<and>
     (\<forall>n k. length (heap T) \<le> n \<longrightarrow>
        (\<exists>T' r h'. BPTree_insert n T k = Inr T'
           \<and> insert_key n (heap T) (tree T) k = Inr (r, h')
           \<and> (r = None \<longrightarrow> tree T' = tree T
                \<and> (\<forall>n'. length (heap T') \<le> n' \<longrightarrow> BPTree_height n' T' = Inr (d + 1)))
           \<and> (\<forall>pk pp. r = Some (pk, pp) \<longrightarrow>
                heap T' = h' @ [BPTreeNode [pk] [tree T, pp] cap] \<and> tree T' = length h'
                \<and> (\<forall>n'. length (heap T') \<le> n' \<longrightarrow> BPTree_height n' T' = Inr (d + 2)))))"
proof -
  obtain T t where b: "build fuel cap ks = Inr T" and inv: "tree_inv T t"
      and cp: "capacity T = cap"
    using build_inv[OF assms] by blast
  have R: "repr (capacity T) (heap T) t None" and rt: "root t = tree T"
    and B: "bal (aheight t) t"
    using inv by (simp_all add: tree_inv_def)
  note sz = inv_size[OF inv]
  define d where "d = aheight t"
  have hgt: "BPTree_height n' T' = Inr (aheight t' + 1)"
    if "tree_inv T' t'" and "length (heap T') \<le> n'" for T' :: "'k BPTree" and t' n'
  proof -
    have R': "repr (capacity T') (heap T') t' None" and rt': "root t' = tree T'"
      and B': "bal (aheight t') t'"
      using that(1) by (simp_all add: tree_inv_def)
    have "aheight t' < n'" using inv_size(2)[OF that(1)] that(2) by simp
    then show ?thesis
      using height_refines[OF R' B', of n'] rt' by (simp add: BPTree_height_def)
  qed
  have p1: "(\<exists>ds. leaf_depths n (heap T) (tree T) = Inr ds \<and> ds \<noteq> [] \<and> (\<forall>x \<in> set ds. x = d))
        \<and> BPTree_height n T = Inr (d + 1)" if n: "length (heap T) \<le> n" for n
  proof -
    have lt: "aheight t < n" using sz(2) n by simp
    have "leaf_depths n (heap T) (tree T) = Inr (replicate (aleaves t) (aheight t))"
      using leaf_depths_refines[OF R B lt] rt by simp
    moreover have "replicate (aleaves t) (aheight t) \<noteq> []" using aleaves_pos[OF B] by simp
    moreover have "\<forall>x \<in> set (replicate (aleaves t) (aheight t)). x = d" by (simp add: d_def)
    ultimately have "\<exists>ds. leaf_depths n (heap T) (tree T) = Inr ds \<and> ds \<noteq> []
        \<and> (\<forall>x \<in> set ds. x = d)" by blast
    then show ?thesis using hgt[OF inv n] by (simp add: d_def)
  qed
  have p2: "\<exists>T' r h'. BPTree_insert n T k = Inr T'
           \<and> insert_key n (heap T) (tree T) k = Inr (r, h')
           \<and> (r = None \<longrightarrow> tree T' = tree T
                \<and> (\<forall>n'. length (heap T') \<le> n' \<longrightarrow> BPTree_height n' T' = Inr (d + 1)))
           \<and> (\<forall>pk pp. r = Some (pk, pp) \<longrightarrow>
                heap T' = h' @ [BPTreeNode [pk] [tree T, pp] cap] \<and> tree T' = length h'
                \<and> (\<forall>n'. length (heap T') \<le> n' \<longrightarrow> BPTree_height n' T' = Inr (d + 2)))"
    if n: "length (heap T) \<le> n" for n k
  proof -
    have lt: "aheight t < n" using sz(2) n by simp
    obtain T' t' r h' where s: "BPTree_insert n T k = Inr T'" "tree_inv T' t'"
        "insert_key n (heap T) (tree T) k = Inr (r, h')"
        "r = None \<longrightarrow> tree T' = tree T \<and> aheight t' = aheight t"
        "\<forall>pk pp. r = Some (pk, pp) \<longrightarrow>
                 heap T' = h' @ [BPTreeNode [pk] [tree T, pp] (capacity T)]
                 \<and> tree T' = length h' \<and> aheight t' = Suc (aheight t)"
      using insert_step[OF inv lt, of k] by blast
    have h: "\<forall>n'. length (heap T') \<le> n' \<longrightarrow> BPTree_height n' T' = Inr (aheight t' + 1)"
      using hgt[OF s(2)] by blast
    have c1: "r = None \<longrightarrow> tree T' = tree T
                \<and> (\<forall>n'. length (heap T') \<le> n' \<longrightarrow> BPTree_height n' T' = Inr (d + 1))"
      using s(4) h by (simp add: d_def)
    have c2: "\<forall>pk pp. r = Some (pk, pp) \<longrightarrow>
                heap T' = h' @ [BPTreeNode [pk] [tree T, pp] cap] \<and> tree T' = length h'
                \<and> (\<forall>n'. length (heap T') \<le> n' \<longrightarrow> BPTree_height n' T' = Inr (d + 2))"
      using s(5) h cp by (simp add: d_def)
    show ?thesis
      by (rule exI[where x = T'], rule exI[where x = r], rule exI[where x = h'])
        (use s(1,3) c1 c2 in blast)
  qed
  show ?thesis
    by (rule exI[where x = T], rule exI[where x = d]) (use b p1 p2 in blast)
qed

theorem balanced_growth_witness:
  "build 3 2 [3, 1 :: int] = Inr \<lparr>heap = [BPTreeLeaf [1, 3] None 2], tree = 0, capacity = 2\<rparr>
   \<and> leaf_depths 1 [BPTreeLeaf [1, 3 :: int] None 2] 0 = Inr [0]
   \<and> BPTree_height 1 \<lparr>heap = [BPTreeLeaf [1, 3 :: int] None 2], tree = 0, capacity = 2\<rparr> = Inr 1
   \<and> insert_key 1 [BPTreeLeaf [1, 3 :: int] None 2] 0 2
       = Inr (Some (2, 1), [BPTreeLeaf [1] (Some 1) 2, BPTreeLeaf [2, 3] None 2])
   \<and> BPTree_insert 1 \<lparr>heap = [BPTreeLeaf [1, 3 :: int] None 2], tree = 0, capacity = 2\<rparr> 2
       = Inr \<lparr>heap = [BPTreeLeaf [1] (Some 1) 2, BPTreeLeaf [2, 3] None 2,
                     BPTreeNode [2] [0, 1] 2],
              tree = 2, capacity = 2\<rparr>
   \<and> BPTree_height 3
       \<lparr>heap = [BPTreeLeaf [1 :: int] (Some 1) 2, BPTreeLeaf [2, 3] None 2, BPTreeNode [2] [0, 1] 2],
        tree = 2, capacity = 2\<rparr> = Inr 2"
proof -
  define T1 :: "int BPTree" where
    "T1 = \<lparr>heap = [BPTreeLeaf [1, 3] None 2], tree = 0, capacity = 2\<rparr>"
  define T0 :: "int BPTree" where "T0 =
     \<lparr>heap = [BPTreeLeaf [1] (Some 1) 2, BPTreeLeaf [2, 3] None 2, BPTreeNode [2] [0, 1] 2],
      tree = 2, capacity = 2\<rparr>"
  define h1 :: "int heap" where "h1 = [BPTreeLeaf [1] (Some 1) 2, BPTreeLeaf [2, 3] None 2]"
  have ev1: "build 3 2 [3, 1 :: int] = Inr T1" unfolding T1_def by code_simp
  have ev2: "BPTree_height 1 T1 = Inr 1" unfolding T1_def by code_simp
  have ev3: "insert_key 1 (heap T1) (tree T1) 2 = Inr (Some (2, 1), h1)"
    unfolding T1_def h1_def by code_simp
  have ev4: "BPTree_insert 1 T1 2 = Inr T0" unfolding T1_def T0_def by code_simp
  have ev5: "leaf_depths 1 (heap T1) (tree T1) = Inr [0]" unfolding T1_def by code_simp
  have a1: "(1 :: int) \<le> 2" by simp
  have a2: "length [3, 1 :: int] < 3" by simp
  obtain T d where T: "build 3 2 [3, 1 :: int] = Inr T"
      and p1: "\<And>n. length (heap T) \<le> n \<Longrightarrow>
        (\<exists>ds. leaf_depths n (heap T) (tree T) = Inr ds \<and> ds \<noteq> [] \<and> (\<forall>x \<in> set ds. x = d))
        \<and> BPTree_height n T = Inr (d + 1)"
      and p2: "\<And>n k. length (heap T) \<le> n \<Longrightarrow>
        (\<exists>T' r h'. BPTree_insert n T k = Inr T'
           \<and> insert_key n (heap T) (tree T) k = Inr (r, h')
           \<and> (r = None \<longrightarrow> tree T' = tree T
                \<and> (\<forall>n'. length (heap T') \<le> n' \<longrightarrow> BPTree_height n' T' = Inr (d + 1)))
           \<and> (\<forall>pk pp. r = Some (pk, pp) \<longrightarrow>
                heap T' = h' @ [BPTreeNode [pk] [tree T, pp] 2] \<and> tree T' = length h'
                \<and> (\<forall>n'. length (heap T') \<le> n' \<longrightarrow> BPTree_height n' T' = Inr (d + 2))))"
    using balanced_growth [OF a1 a2] by blast
  have e: "T = T1" using ev1 T by simp
  have l: "length (heap T1) \<le> 1" by (simp add: T1_def)
  have "BPTree_height 1 T1 = Inr (d + 1)" using p1[of 1] e l by simp
  then have d0: "d = 0" using ev2 by simp
  obtain T' r h' where s: "BPTree_insert 1 T1 2 = Inr T'"
      "insert_key 1 (heap T1) (tree T1) 2 = Inr (r, h')"
      "\<forall>pk pp. r = Some (pk, pp) \<longrightarrow>
          (\<forall>n'. length (heap T') \<le> n' \<longrightarrow> BPTree_height n' T' = Inr (d + 2))"
    using p2[of 1 2] e l by blast
  have t: "T' = T0" using s(1) ev4 by simp
  have r: "r = Some (2, 1)" using s(2) ev3 by simp
  have "\<forall>n'. length (heap T0) \<le> n' \<longrightarrow> BPTree_height n' T0 = Inr 2"
    using s(3) r t d0 by simp
  moreover have "length (heap T0) \<le> 3" by (simp add: T0_def)
  ultimately have ev6: "BPTree_height 3 T0 = Inr 2" by blast
  have x1: "heap T1 = [BPTreeLeaf [1, 3] None 2]" and x2: "tree T1 = 0" by (simp_all add: T1_def)
  show ?thesis
    using ev1 ev5 ev2 ev3 ev4 ev6 unfolding x1 x2 unfolding T1_def T0_def h1_def by blast
qed



end
